theory Spec2Isabelle
  imports Complex_Main "HOL-Library.Signed_Division" "HOL-Library.Multiset" "HOL-Library.Log_Nat"
begin

section \<open>Sense-Flow: circular buffer, statistics and handshake of Core/Src/main.c\<close>

text \<open>
  The C types \<open>float\<close> and \<open>double\<close> are IEEE 754 binary32 and binary64 with the
  default rounding (to nearest, ties to even), infinities and NaN. The C type \<open>int\<close> is
  \<^typ>\<open>int\<close> with the 32-bit overflow written out, \<open>uint32_t\<close> is \<^typ>\<open>nat\<close> with
  the wrap-around of \<open>count - 1\<close> written out, and \<open>%\<close> on \<open>int\<close> is the truncating
  remainder \<open>smod\<close>.
\<close>

subsection \<open>The arithmetic of \<open>float\<close> and \<open>double\<close>\<close>

text \<open>
  A value of the C types \<open>float\<close> (IEEE 754 binary32) and \<open>double\<close> (binary64): a finite
  number, an infinity or NaN. The two zeros are one value \<open>Finite 0\<close>; the program
  never divides by a zero that could be negative. A \<open>float\<close> is a \<open>Finite r\<close> with
  \<open>r\<close> on the binary32 grid (\<open>finite_binary32\<close> below), an infinity or NaN.
\<close>

datatype cfloat = Finite real | PInf | NInf | NaN

text \<open>Round half to even, to an integer.\<close>

definition rne :: "real \<Rightarrow> int" where
  "rne y =
     (let f = \<lfloor>y\<rfloor>; d = y - of_int f in
      if d < 1 / 2 then f else if d > 1 / 2 then f + 1 else if even f then f else f + 1)"

text \<open>
  Round to nearest, ties to even, onto the numbers \<open>m * 2 ^ k\<close> with \<open>\<bar>m\<bar> < 2 ^ p\<close>:
  the quantum \<open>2 ^ k\<close> is the one that leaves \<open>p\<close> significant bits.
\<close>

definition round_grid :: "nat \<Rightarrow> real \<Rightarrow> real" where
  "round_grid p y =
     (let k = nat (bitlen \<lfloor>\<bar>y\<bar>\<rfloor> - int p) in of_int (rne (y / 2 ^ k)) * 2 ^ k)"

text \<open>
  Rounding to a format with \<open>p\<close> significant bits whose least subnormal is
  \<open>2 ^ - s\<close> (exponent range unbounded above), and the numbers of the format.
\<close>

definition round_to :: "nat \<Rightarrow> nat \<Rightarrow> real \<Rightarrow> real" where
  "round_to p s x = round_grid p (x * 2 ^ s) / 2 ^ s"

definition representable :: "nat \<Rightarrow> nat \<Rightarrow> real \<Rightarrow> bool" where
  "representable p s x \<longleftrightarrow> round_to p s x = x"

definition on_grid :: "nat \<Rightarrow> real \<Rightarrow> bool" where
  "on_grid p y \<longleftrightarrow> (\<exists>(m::int) (k::nat). \<bar>m\<bar> < 2 ^ p \<and> y = of_int m * 2 ^ k)"

text \<open>
  The result of an operation whose exact value is \<open>x\<close>: rounded, and an infinity when
  the rounded value reaches \<open>2 ^ h\<close>. binary32 has 24 significant bits, least subnormal
  \<open>2 ^ -149\<close> and overflows at \<open>2 ^ 128\<close>; binary64 has 53 bits, \<open>2 ^ -1074\<close> and
  \<open>2 ^ 1024\<close>.
\<close>

definition to_format :: "nat \<Rightarrow> nat \<Rightarrow> nat \<Rightarrow> real \<Rightarrow> cfloat" where
  "to_format p s h x =
     (let r = round_to p s x in
      if 2 ^ h \<le> r then PInf else if r \<le> - (2 ^ h) then NInf else Finite r)"

definition to_binary32 :: "real \<Rightarrow> cfloat" where
  "to_binary32 = to_format 24 149 128"

definition to_binary64 :: "real \<Rightarrow> cfloat" where
  "to_binary64 = to_format 53 1074 1024"

definition FLT_MAX :: real where
  "FLT_MAX = 340282346638528859811704183484516925440"

fun finite_binary32 :: "cfloat \<Rightarrow> bool" where
  "finite_binary32 (Finite r) = (representable 24 149 r \<and> \<bar>r\<bar> < 2 ^ 128)"
| "finite_binary32 x = False"

fun finite_float :: "cfloat \<Rightarrow> bool" where
  "finite_float (Finite r) = True"
| "finite_float x = False"

text \<open>
  The operations, with the rounding of the format they are carried out in. Each
  operation of the program is evaluated in the type C gives it
  (\<open>FLT_EVAL_METHOD\<close> 0): \<open>float\<close> with \<open>float\<close> in binary32, anything with a
  \<open>double\<close> in binary64.
\<close>

fun ieee_add :: "(real \<Rightarrow> cfloat) \<Rightarrow> cfloat \<Rightarrow> cfloat \<Rightarrow> cfloat" where
  "ieee_add rnd NaN y = NaN"
| "ieee_add rnd x NaN = NaN"
| "ieee_add rnd PInf NInf = NaN"
| "ieee_add rnd NInf PInf = NaN"
| "ieee_add rnd PInf y = PInf"
| "ieee_add rnd x PInf = PInf"
| "ieee_add rnd NInf y = NInf"
| "ieee_add rnd x NInf = NInf"
| "ieee_add rnd (Finite a) (Finite b) = rnd (a + b)"

fun ieee_neg :: "cfloat \<Rightarrow> cfloat" where
  "ieee_neg (Finite a) = Finite (- a)"
| "ieee_neg PInf = NInf"
| "ieee_neg NInf = PInf"
| "ieee_neg NaN = NaN"

definition ieee_sub :: "(real \<Rightarrow> cfloat) \<Rightarrow> cfloat \<Rightarrow> cfloat \<Rightarrow> cfloat" where
  "ieee_sub rnd x y = ieee_add rnd x (ieee_neg y)"

text \<open>A zero divisor is \<open>+0\<close>: the only one in the program is \<open>count = 0\<close>.\<close>

fun ieee_div :: "(real \<Rightarrow> cfloat) \<Rightarrow> cfloat \<Rightarrow> cfloat \<Rightarrow> cfloat" where
  "ieee_div rnd NaN y = NaN"
| "ieee_div rnd x NaN = NaN"
| "ieee_div rnd (Finite a) (Finite b) =
     (if b = 0 then (if a = 0 then NaN else if 0 < a then PInf else NInf) else rnd (a / b))"
| "ieee_div rnd (Finite a) y = Finite 0"
| "ieee_div rnd PInf (Finite b) = (if b < 0 then NInf else PInf)"
| "ieee_div rnd NInf (Finite b) = (if b < 0 then PInf else NInf)"
| "ieee_div rnd x y = NaN"

fun ieee_sqrt :: "(real \<Rightarrow> cfloat) \<Rightarrow> cfloat \<Rightarrow> cfloat" where
  "ieee_sqrt rnd (Finite a) = (if a < 0 then NaN else rnd (sqrt a))"
| "ieee_sqrt rnd PInf = PInf"
| "ieee_sqrt rnd x = NaN"

abbreviation float_add :: "cfloat \<Rightarrow> cfloat \<Rightarrow> cfloat" where
  "float_add \<equiv> ieee_add to_binary32"

abbreviation float_sub :: "cfloat \<Rightarrow> cfloat \<Rightarrow> cfloat" where
  "float_sub \<equiv> ieee_sub to_binary32"

abbreviation float_div :: "cfloat \<Rightarrow> cfloat \<Rightarrow> cfloat" where
  "float_div \<equiv> ieee_div to_binary32"

abbreviation double_add :: "cfloat \<Rightarrow> cfloat \<Rightarrow> cfloat" where
  "double_add \<equiv> ieee_add to_binary64"

abbreviation double_div :: "cfloat \<Rightarrow> cfloat \<Rightarrow> cfloat" where
  "double_div \<equiv> ieee_div to_binary64"

text \<open>\<open>sqrt\<close> of the C library, on \<open>double\<close>: correctly rounded.\<close>

abbreviation double_sqrt :: "cfloat \<Rightarrow> cfloat" where
  "double_sqrt \<equiv> ieee_sqrt to_binary64"

text \<open>
  \<open>pow(d, 2)\<close> of the C library, on \<open>double\<close>. The program passes it a \<open>float\<close>
  converted to \<open>double\<close>, whose square is a \<open>double\<close> exactly.
\<close>

fun pow_2 :: "cfloat \<Rightarrow> cfloat" where
  "pow_2 (Finite a) = to_binary64 (a * a)"
| "pow_2 NaN = NaN"
| "pow_2 x = PInf"

text \<open>
  Conversions: a \<open>double\<close> stored in or returned as a \<open>float\<close> is rounded to binary32
  (a \<open>float\<close> converts to \<open>double\<close> unchanged), and a \<open>uint32_t\<close> operand of a
  \<open>float\<close> operation is rounded to binary32.
\<close>

fun float_of_double :: "cfloat \<Rightarrow> cfloat" where
  "float_of_double (Finite a) = to_binary32 a"
| "float_of_double x = x"

definition float_of_uint32 :: "nat \<Rightarrow> cfloat" where
  "float_of_uint32 n = to_binary32 (real n)"

text \<open>
  The order of the values, \<open>NInf\<close> below and \<open>PInf\<close> above the finite ones. NaN is put
  last only to make the order total: the comparisons of C are false when an operand is
  NaN.
\<close>

fun rank :: "cfloat \<Rightarrow> nat" where
  "rank NInf = 0"
| "rank (Finite a) = 1"
| "rank PInf = 2"
| "rank NaN = 3"

instantiation cfloat :: linorder
begin

definition less_eq_cfloat :: "cfloat \<Rightarrow> cfloat \<Rightarrow> bool" where
  "less_eq_cfloat x y =
     (case (x, y) of (Finite a, Finite b) \<Rightarrow> a \<le> b | _ \<Rightarrow> rank x \<le> rank y)"

definition less_cfloat :: "cfloat \<Rightarrow> cfloat \<Rightarrow> bool" where
  "less_cfloat x y = (x \<le> y \<and> \<not> y \<le> (x::cfloat))"

instance
proof
  fix x y z :: cfloat
  show "(x < y) = (x \<le> y \<and> \<not> y \<le> x)"
    by (simp add: less_cfloat_def)
  show "x \<le> x"
    by (cases x) (simp_all add: less_eq_cfloat_def)
  show "x \<le> y \<Longrightarrow> y \<le> z \<Longrightarrow> x \<le> z"
    by (cases x; cases y; cases z) (simp_all add: less_eq_cfloat_def)
  show "x \<le> y \<Longrightarrow> y \<le> x \<Longrightarrow> x = y"
    by (cases x; cases y) (simp_all add: less_eq_cfloat_def)
  show "x \<le> y \<or> y \<le> x"
    by (cases x; cases y) (auto simp add: less_eq_cfloat_def)
qed

end

text \<open>The C comparisons \<open>x > y\<close> and \<open>x < y\<close>.\<close>

definition c_greater :: "cfloat \<Rightarrow> cfloat \<Rightarrow> bool" where
  "c_greater x y \<longleftrightarrow> x \<noteq> NaN \<and> y \<noteq> NaN \<and> y < x"

definition c_less :: "cfloat \<Rightarrow> cfloat \<Rightarrow> bool" where
  "c_less x y \<longleftrightarrow> x \<noteq> NaN \<and> y \<noteq> NaN \<and> x < y"

subsection \<open>Data\<close>

record sensor_data_t =
  PIR :: cfloat
  humidity_and_heat :: cfloat
  LDR :: cfloat

text \<open>\<open>#define BUFFER_SIZE 100\<close>\<close>

definition BUFFER_SIZE :: nat where
  "BUFFER_SIZE = 100"

definition INT_MAX :: int where
  "INT_MAX = 2147483647"

text \<open>
  The globals \<open>sensor_buffer[BUFFER_SIZE]\<close>, \<open>buffer_head\<close> and \<open>buffer_tail\<close>.
\<close>

record globals =
  sensor_buffer :: "sensor_data_t list"
  buffer_head :: int
  buffer_tail :: int

text \<open>
  File-scope objects are zero-initialised; the two indices are initialised to 0.
\<close>

definition zero_reading :: sensor_data_t where
  "zero_reading = \<lparr>PIR = Finite 0, humidity_and_heat = Finite 0, LDR = Finite 0\<rparr>"

definition initial_globals :: globals where
  "initial_globals =
     \<lparr>sensor_buffer = replicate BUFFER_SIZE zero_reading, buffer_head = 0, buffer_tail = 0\<rparr>"

text \<open>
  The state the program keeps: the array has \<open>BUFFER_SIZE\<close> slots and both indices
  address a slot.
\<close>

definition buffer_ok :: "globals \<Rightarrow> bool" where
  "buffer_ok g \<longleftrightarrow>
     length (sensor_buffer g) = BUFFER_SIZE \<and>
     0 \<le> buffer_head g \<and> buffer_head g < int BUFFER_SIZE \<and>
     0 \<le> buffer_tail g \<and> buffer_tail g < int BUFFER_SIZE"

subsection \<open>\<open>buffer_push\<close>\<close>

text \<open>
  \<^verbatim>\<open>
  bool buffer_push(sensor_data_t data) {
      int next_head = (buffer_head + 1) % BUFFER_SIZE;
      if (next_head != buffer_tail) {
          sensor_buffer[buffer_head] = data;
          buffer_head = next_head;
          return true;
      }
      return false;
  }
  \<close>
  The result is \<open>None\<close> where C leaves the behaviour undefined: \<open>buffer_head + 1\<close>
  overflowing, or the store falling outside the array.
\<close>

definition buffer_push :: "sensor_data_t \<Rightarrow> globals \<Rightarrow> (bool \<times> globals) option" where
  "buffer_push data g =
     (if buffer_head g \<ge> INT_MAX then None
      else
        let next_head = (buffer_head g + 1) smod int BUFFER_SIZE in
        if next_head \<noteq> buffer_tail g then
          (if 0 \<le> buffer_head g \<and> nat (buffer_head g) < length (sensor_buffer g) then
             Some (True,
               g\<lparr>sensor_buffer := (sensor_buffer g)[nat (buffer_head g) := data],
                 buffer_head := next_head\<rparr>)
           else None)
        else Some (False, g))"

subsection \<open>One iteration of the producer's batch loop\<close>

text \<open>
  \<^verbatim>\<open>
  if (!buffer_push(sensor_data)) {
      // If buffer is full, discard oldest data
      buffer_head = (buffer_head + 1) % BUFFER_SIZE;
      // And push the newest data again
      buffer_push(sensor_data);
  }
  \<close>
  The three sensor reads that fill \<open>sensor_data\<close> are input of the model.
\<close>

definition advance_head :: "globals \<Rightarrow> globals option" where
  "advance_head g =
     (if buffer_head g \<ge> INT_MAX then None
      else Some (g\<lparr>buffer_head := (buffer_head g + 1) smod int BUFFER_SIZE\<rparr>))"

definition producer_iteration :: "sensor_data_t \<Rightarrow> globals \<Rightarrow> globals option" where
  "producer_iteration sensor_data g =
     (case buffer_push sensor_data g of
        None \<Rightarrow> None
      | Some (True, g1) \<Rightarrow> Some g1
      | Some (False, g1) \<Rightarrow>
          (case advance_head g1 of
             None \<Rightarrow> None
           | Some g2 \<Rightarrow> map_option snd (buffer_push sensor_data g2)))"

subsection \<open>Statistics\<close>

text \<open>
  What a call of a statistics function does. The functions return \<open>float\<close> and have
  no error return: \<open>Returns v\<close> is the value returned, which can be an infinity or NaN,
  and \<open>Out_Of_Bounds\<close> says that the call read outside the array it was given
  (undefined behaviour in C). The parameter \<open>data\<close> is the array the pointer
  addresses, with its real extent; \<open>count\<close> is passed beside it (written \<open>cnt\<close>
  below; the locals \<open>sum\<close>, \<open>max\<close> and \<open>min\<close> are written \<open>sum_val\<close>, \<open>max_val\<close>
  and \<open>min_val\<close>).
\<close>

datatype 'a c_result = Returns 'a | Out_Of_Bounds

text \<open>\<open>count - 1\<close> on \<open>uint32_t\<close>: \<open>0 - 1\<close> wraps to \<open>2^32 - 1\<close>.\<close>

definition uint32_pred :: "nat \<Rightarrow> nat" where
  "uint32_pred cnt = (if cnt = 0 then 4294967295 else cnt - 1)"

text \<open>
  \<^verbatim>\<open>
  float calculate_std_dev(float data[], uint32_t count) {
      float sum = 0.0, mean, std_dev = 0.0;
      for(uint32_t i = 0; i < count; ++i) { sum += data[i]; }
      mean = sum / count;
      for(uint32_t i = 0; i < count; ++i) { std_dev += pow(data[i] - mean, 2); }
      return sqrt(std_dev / count);
  }
  \<close>
  \<open>sum += data[i]\<close>, \<open>sum / count\<close>, \<open>data[i] - mean\<close> and \<open>std_dev / count\<close> are
  \<open>float\<close> operations (\<open>count\<close> converted to \<open>float\<close>); \<open>pow\<close>, the addition
  to \<open>std_dev\<close> and \<open>sqrt\<close> are \<open>double\<close> operations whose result is converted to
  \<open>float\<close> when it is stored in \<open>std_dev\<close> or returned.
\<close>

function sum_loop :: "cfloat list \<Rightarrow> nat \<Rightarrow> nat \<Rightarrow> cfloat \<Rightarrow> cfloat c_result" where
  "sum_loop data cnt i sum_val =
     (if i < cnt then
        (if i < length data then sum_loop data cnt (i + 1) (float_add sum_val (data ! i))
         else Out_Of_Bounds)
      else Returns sum_val)"
  by pat_completeness auto
termination
  by (relation "measure (\<lambda>(data, cnt, i, sum_val). cnt - i)") auto

function dev_loop :: "cfloat list \<Rightarrow> nat \<Rightarrow> cfloat \<Rightarrow> nat \<Rightarrow> cfloat \<Rightarrow> cfloat c_result" where
  "dev_loop data cnt mean i std_dev =
     (if i < cnt then
        (if i < length data then
           dev_loop data cnt mean (i + 1)
             (float_of_double (double_add std_dev (pow_2 (float_sub (data ! i) mean))))
         else Out_Of_Bounds)
      else Returns std_dev)"
  by pat_completeness auto
termination
  by (relation "measure (\<lambda>(data, cnt, mean, i, std_dev). cnt - i)") auto

definition calculate_std_dev :: "cfloat list \<Rightarrow> nat \<Rightarrow> cfloat c_result" where
  "calculate_std_dev data cnt =
     (case sum_loop data cnt 0 (Finite 0) of
        Returns sum_val \<Rightarrow>
          let mean = float_div sum_val (float_of_uint32 cnt) in
          (case dev_loop data cnt mean 0 (Finite 0) of
             Returns std_dev \<Rightarrow>
               Returns (float_of_double (double_sqrt (float_div std_dev (float_of_uint32 cnt))))
           | Out_Of_Bounds \<Rightarrow> Out_Of_Bounds)
      | Out_Of_Bounds \<Rightarrow> Out_Of_Bounds)"

text \<open>
  \<^verbatim>\<open>
  float calculate_max(float data[], uint32_t count) {
      float max = data[0];
      for(uint32_t i = 1; i < count; ++i) {
          if(data[i] > max) { max = data[i]; }
      }
      return max;
  }
  \<close>
  and \<open>calculate_min\<close> likewise with \<open><\<close>.
\<close>

function max_loop :: "cfloat list \<Rightarrow> nat \<Rightarrow> nat \<Rightarrow> cfloat \<Rightarrow> cfloat c_result" where
  "max_loop data cnt i max_val =
     (if i < cnt then
        (if i < length data then
           max_loop data cnt (i + 1) (if c_greater (data ! i) max_val then data ! i else max_val)
         else Out_Of_Bounds)
      else Returns max_val)"
  by pat_completeness auto
termination
  by (relation "measure (\<lambda>(data, cnt, i, max_val). cnt - i)") auto

definition calculate_max :: "cfloat list \<Rightarrow> nat \<Rightarrow> cfloat c_result" where
  "calculate_max data cnt =
     (if 0 < length data then max_loop data cnt 1 (data ! 0) else Out_Of_Bounds)"

function min_loop :: "cfloat list \<Rightarrow> nat \<Rightarrow> nat \<Rightarrow> cfloat \<Rightarrow> cfloat c_result" where
  "min_loop data cnt i min_val =
     (if i < cnt then
        (if i < length data then
           min_loop data cnt (i + 1) (if c_less (data ! i) min_val then data ! i else min_val)
         else Out_Of_Bounds)
      else Returns min_val)"
  by pat_completeness auto
termination
  by (relation "measure (\<lambda>(data, cnt, i, min_val). cnt - i)") auto

definition calculate_min :: "cfloat list \<Rightarrow> nat \<Rightarrow> cfloat c_result" where
  "calculate_min data cnt =
     (if 0 < length data then min_loop data cnt 1 (data ! 0) else Out_Of_Bounds)"

text \<open>
  \<^verbatim>\<open>
  float calculate_median(float data[], uint32_t count) {
      float temp;
      for(uint32_t i = 0; i < count - 1; ++i) {
          for(uint32_t j = i + 1; j < count; ++j) {
              if(data[i] > data[j]) {
                  temp = data[i]; data[i] = data[j]; data[j] = temp;
              }
          }
      }
      if(count % 2 != 0) { return data[count / 2]; }
      return (data[(count - 1) / 2] + data[count / 2]) / 2.0;
  }
  \<close>
  The function sorts the caller's array in place, so the model returns the array as the
  call leaves it together with the value. In the last line the sum is a \<open>float\<close>
  addition, the division by \<open>2.0\<close> a \<open>double\<close> division, and the quotient is
  converted to \<open>float\<close> when it is returned.
\<close>

function median_inner :: "nat \<Rightarrow> nat \<Rightarrow> nat \<Rightarrow> cfloat list \<Rightarrow> cfloat list c_result" where
  "median_inner cnt i j data =
     (if j < cnt then
        (if i < length data \<and> j < length data then
           median_inner cnt i (j + 1)
             (if c_greater (data ! i) (data ! j) then data[i := data ! j, j := data ! i]
              else data)
         else Out_Of_Bounds)
      else Returns data)"
  by pat_completeness auto
termination
  by (relation "measure (\<lambda>(cnt, i, j, data). cnt - j)") auto

function median_outer :: "nat \<Rightarrow> nat \<Rightarrow> cfloat list \<Rightarrow> cfloat list c_result" where
  "median_outer cnt i data =
     (if i < uint32_pred cnt then
        (case median_inner cnt i (i + 1) data of
           Returns data' \<Rightarrow> median_outer cnt (i + 1) data'
         | Out_Of_Bounds \<Rightarrow> Out_Of_Bounds)
      else Returns data)"
  by pat_completeness auto
termination
  by (relation "measure (\<lambda>(cnt, i, data). uint32_pred cnt - i)") auto

definition float_mean_of_two :: "cfloat \<Rightarrow> cfloat \<Rightarrow> cfloat" where
  "float_mean_of_two a b = float_of_double (double_div (float_add a b) (Finite 2))"

definition calculate_median :: "cfloat list \<Rightarrow> nat \<Rightarrow> (cfloat list \<times> cfloat) c_result" where
  "calculate_median data cnt =
     (case median_outer cnt 0 data of
        Returns sorted_data \<Rightarrow>
          if cnt mod 2 \<noteq> 0 then
            (if cnt div 2 < length sorted_data
             then Returns (sorted_data, sorted_data ! (cnt div 2))
             else Out_Of_Bounds)
          else
            (if uint32_pred cnt div 2 < length sorted_data \<and> cnt div 2 < length sorted_data
             then Returns (sorted_data,
                    float_mean_of_two (sorted_data ! (uint32_pred cnt div 2))
                      (sorted_data ! (cnt div 2)))
             else Out_Of_Bounds)
      | Out_Of_Bounds \<Rightarrow> Out_Of_Bounds)"

declare sum_loop.simps [simp del] dev_loop.simps [simp del] max_loop.simps [simp del]
  min_loop.simps [simp del] median_inner.simps [simp del] median_outer.simps [simp del]

subsection \<open>The consumer's copy-out and summary\<close>

text \<open>
  \<^verbatim>\<open>
  float pir_data[BUFFER_SIZE];
  float humidity_and_heat_data[BUFFER_SIZE];
  float ldr_data[BUFFER_SIZE];
  for (int i = 0; i < BUFFER_SIZE; ++i) {
      pir_data[i] = sensor_buffer[i].PIR;
      humidity_and_heat_data[i] = sensor_buffer[i].humidity_and_heat;
      ldr_data[i] = sensor_buffer[i].LDR;
  }
  \<close>
  The three local arrays are not initialised: the loop starts from whatever they hold.
\<close>

record consumer_locals =
  pir_data :: "cfloat list"
  humidity_and_heat_data :: "cfloat list"
  ldr_data :: "cfloat list"

definition locals_ok :: "consumer_locals \<Rightarrow> bool" where
  "locals_ok l \<longleftrightarrow>
     length (pir_data l) = BUFFER_SIZE \<and> length (humidity_and_heat_data l) = BUFFER_SIZE \<and>
     length (ldr_data l) = BUFFER_SIZE"

function copy_loop :: "sensor_data_t list \<Rightarrow> nat \<Rightarrow> consumer_locals \<Rightarrow> consumer_locals option" where
  "copy_loop buf i l =
     (if i < BUFFER_SIZE then
        (if i < length buf \<and> i < length (pir_data l) \<and>
            i < length (humidity_and_heat_data l) \<and> i < length (ldr_data l)
         then
           copy_loop buf (i + 1)
             (l\<lparr>pir_data := (pir_data l)[i := PIR (buf ! i)],
                humidity_and_heat_data :=
                  (humidity_and_heat_data l)[i := humidity_and_heat (buf ! i)],
                ldr_data := (ldr_data l)[i := LDR (buf ! i)]\<rparr>)
         else None)
      else Some l)"
  by pat_completeness auto
termination
  by (relation "measure (\<lambda>(buf, i, l). BUFFER_SIZE - i)") auto

declare copy_loop.simps [simp del]

definition consumer_copy_out :: "globals \<Rightarrow> consumer_locals \<Rightarrow> consumer_locals option" where
  "consumer_copy_out g l = copy_loop (sensor_buffer g) 0 l"

record filtered_data_for_ble =
  pir_std_dev :: cfloat
  pir_max :: cfloat
  pir_min :: cfloat
  pir_median :: cfloat
  humidity_and_heat_std_dev :: cfloat
  humidity_and_heat_max :: cfloat
  humidity_and_heat_min :: cfloat
  humidity_and_heat_median :: cfloat
  ldr_std_dev :: cfloat
  ldr_max :: cfloat
  ldr_min :: cfloat
  ldr_median :: cfloat

text \<open>
  Sequencing of calls: the next call runs after the previous one has returned. (An
  out-of-bounds read ends the sequence; with \<open>count = BUFFER_SIZE\<close> on arrays of
  \<open>BUFFER_SIZE\<close> elements there is none.)
\<close>

definition then_result :: "'a c_result \<Rightarrow> ('a \<Rightarrow> 'b c_result) \<Rightarrow> 'b c_result" where
  "then_result r f = (case r of Returns v \<Rightarrow> f v | Out_Of_Bounds \<Rightarrow> Out_Of_Bounds)"

text \<open>
  \<^verbatim>\<open>
  float pir_std_dev = calculate_std_dev(pir_data, BUFFER_SIZE);
  float pir_max = calculate_max(pir_data, BUFFER_SIZE);
  float pir_min = calculate_min(pir_data, BUFFER_SIZE);
  float pir_median = calculate_median(pir_data, BUFFER_SIZE);
  ... (the same for humidity_and_heat_data and ldr_data)
  filtered_data.pir_std_dev = pir_std_dev; ...
  \<close>
  \<open>calculate_median\<close> is the last call on each array and leaves it sorted.
\<close>

definition consumer_statistics ::
  "consumer_locals \<Rightarrow> (consumer_locals \<times> filtered_data_for_ble) c_result" where
  "consumer_statistics l =
     then_result (calculate_std_dev (pir_data l) BUFFER_SIZE) (\<lambda>pir_std_dev'.
     then_result (calculate_max (pir_data l) BUFFER_SIZE) (\<lambda>pir_max'.
     then_result (calculate_min (pir_data l) BUFFER_SIZE) (\<lambda>pir_min'.
     then_result (calculate_median (pir_data l) BUFFER_SIZE) (\<lambda>(pir_data', pir_median').
     then_result (calculate_std_dev (humidity_and_heat_data l) BUFFER_SIZE) (\<lambda>hh_std_dev'.
     then_result (calculate_max (humidity_and_heat_data l) BUFFER_SIZE) (\<lambda>hh_max'.
     then_result (calculate_min (humidity_and_heat_data l) BUFFER_SIZE) (\<lambda>hh_min'.
     then_result (calculate_median (humidity_and_heat_data l) BUFFER_SIZE) (\<lambda>(hh_data', hh_median').
     then_result (calculate_std_dev (ldr_data l) BUFFER_SIZE) (\<lambda>ldr_std_dev'.
     then_result (calculate_max (ldr_data l) BUFFER_SIZE) (\<lambda>ldr_max'.
     then_result (calculate_min (ldr_data l) BUFFER_SIZE) (\<lambda>ldr_min'.
     then_result (calculate_median (ldr_data l) BUFFER_SIZE) (\<lambda>(ldr_data', ldr_median').
       Returns
         (\<lparr>pir_data = pir_data', humidity_and_heat_data = hh_data', ldr_data = ldr_data'\<rparr>,
          \<lparr>pir_std_dev = pir_std_dev', pir_max = pir_max', pir_min = pir_min',
           pir_median = pir_median',
           humidity_and_heat_std_dev = hh_std_dev', humidity_and_heat_max = hh_max',
           humidity_and_heat_min = hh_min', humidity_and_heat_median = hh_median',
           ldr_std_dev = ldr_std_dev', ldr_max = ldr_max', ldr_min = ldr_min',
           ldr_median = ldr_median'\<rparr>)))))))))))))"

text \<open>One consumer cycle on the buffer: copy-out, then the summary.\<close>

definition consumer_cycle ::
  "globals \<Rightarrow> consumer_locals \<Rightarrow> (consumer_locals \<times> filtered_data_for_ble) c_result" where
  "consumer_cycle g l =
     (case consumer_copy_out g l of
        None \<Rightarrow> Out_Of_Bounds
      | Some l' \<Rightarrow> consumer_statistics l')"

subsection \<open>The two tasks and their handshake\<close>

datatype task = Producer_Task | Consumer_Task

datatype semaphore = Producer_Semaphore | Consumer_Semaphore

text \<open>
  Modelled from the spec: the binary semaphores and the mutex. \<open>main.c\<close> only calls
  \<open>xSemaphoreCreateBinary\<close>, \<open>xSemaphoreTake\<close>, \<open>xSemaphoreGive\<close>,
  \<open>xSemaphoreCreateMutex\<close>, \<open>osMutexWait\<close> and \<open>osMutexRelease\<close>; their code (the
  kernel under \<open>Middlewares/Third_Party/FreeRTOS\<close>) is not among the sources. The spec
  describes each channel as a binary flag, either signaled (one pending wake-up) or clear,
  where several signals before a wait collapse to one wake-up, a wait that blocks until
  the flag is signaled, and a channel that is not signaled when it is created; the lock
  gives mutual exclusion. A flag is \<open>True\<close> when signaled. A wait or lock that cannot
  proceed returns \<open>None\<close>: the calling task stays where it is.
\<close>

definition xSemaphoreCreateBinary :: bool where
  "xSemaphoreCreateBinary = False"

definition xSemaphoreTake :: "bool \<Rightarrow> bool option" where
  "xSemaphoreTake flag = (if flag then Some False else None)"

definition xSemaphoreGive :: "bool \<Rightarrow> bool" where
  "xSemaphoreGive flag = True"

definition xSemaphoreCreateMutex :: "task option" where
  "xSemaphoreCreateMutex = None"

definition osMutexWait :: "task \<Rightarrow> task option \<Rightarrow> task option option" where
  "osMutexWait t owner = (if owner = None then Some (Some t) else None)"

definition osMutexRelease :: "task option \<Rightarrow> task option" where
  "osMutexRelease owner = None"

text \<open>
  The statement each task executes next. \<open>P_loop i\<close> is the head of the batch loop
  with loop counter \<open>i\<close>.
\<close>

datatype producer_pc = P_take | P_lock | P_loop nat | P_unlock | P_give

datatype consumer_pc = C_take | C_lock | C_copy | C_unlock | C_give | C_compute | C_broadcast

text \<open>
  A completed \<open>xSemaphoreTake\<close> (the task was woken) or an \<open>xSemaphoreGive\<close>, with
  the task that made the call.
\<close>

datatype event = Take task semaphore | Give task semaphore

record system =
  shared :: globals
  producer_semaphore :: bool
  consumer_semaphore :: bool
  sensor_buffer_mutex :: "task option"
  producer_at :: producer_pc
  consumer_at :: consumer_pc
  consumer_arrays :: consumer_locals
  filtered_data :: "filtered_data_for_ble option"
  transmitted :: "filtered_data_for_ble list"
  trace :: "event list"

text \<open>
  The state in which \<open>vTaskStartScheduler\<close> starts the two tasks, for given states of
  the two semaphores. \<open>stack\<close> is what the memory of the consumer's local arrays holds.
\<close>

definition system_start :: "bool \<Rightarrow> bool \<Rightarrow> consumer_locals \<Rightarrow> system" where
  "system_start producer_flag consumer_flag stack =
     \<lparr>shared = initial_globals,
      producer_semaphore = producer_flag,
      consumer_semaphore = consumer_flag,
      sensor_buffer_mutex = xSemaphoreCreateMutex,
      producer_at = P_take,
      consumer_at = C_take,
      consumer_arrays = stack,
      filtered_data = None,
      transmitted = [],
      trace = []\<rparr>"

text \<open>
  \<^verbatim>\<open>
  sensor_buffer_mutex = xSemaphoreCreateMutex();
  producer_semaphore = xSemaphoreCreateBinary();
  consumer_semaphore = xSemaphoreCreateBinary();
  xTaskCreate(producer_task, ...); xTaskCreate(consumer_task, ...);
  vTaskStartScheduler();
  \<close>
\<close>

definition main_start :: "consumer_locals \<Rightarrow> system" where
  "main_start stack = system_start xSemaphoreCreateBinary xSemaphoreCreateBinary stack"

text \<open>
  One statement of \<open>producer_task\<close>. \<open>sensor_data\<close> is what the three sensor reads
  deliver if the statement is a loop iteration. The result is \<open>None\<close> where the
  behaviour is undefined in C.
  \<^verbatim>\<open>
  while (1) {
      xSemaphoreTake(producer_semaphore, portMAX_DELAY);
      osMutexWait(sensor_buffer_mutex, osWaitForever);
      for(int i = 0; i < 30; ++i) { osDelay(1000); ... }
      osMutexRelease(sensor_buffer_mutex);
      xSemaphoreGive(consumer_semaphore);
  }
  \<close>
\<close>

definition producer_step :: "sensor_data_t \<Rightarrow> system \<Rightarrow> system option" where
  "producer_step sensor_data s =
     (case producer_at s of
        P_take \<Rightarrow>
          (case xSemaphoreTake (producer_semaphore s) of
             None \<Rightarrow> Some s
           | Some flag \<Rightarrow>
               Some (s\<lparr>producer_semaphore := flag, producer_at := P_lock,
                       trace := trace s @ [Take Producer_Task Producer_Semaphore]\<rparr>))
      | P_lock \<Rightarrow>
          (case osMutexWait Producer_Task (sensor_buffer_mutex s) of
             None \<Rightarrow> Some s
           | Some owner \<Rightarrow> Some (s\<lparr>sensor_buffer_mutex := owner, producer_at := P_loop 0\<rparr>))
      | P_loop i \<Rightarrow>
          (if i < 30 then
             (case producer_iteration sensor_data (shared s) of
                None \<Rightarrow> None
              | Some g \<Rightarrow> Some (s\<lparr>shared := g, producer_at := P_loop (i + 1)\<rparr>))
           else Some (s\<lparr>producer_at := P_unlock\<rparr>))
      | P_unlock \<Rightarrow>
          Some (s\<lparr>sensor_buffer_mutex := osMutexRelease (sensor_buffer_mutex s),
                  producer_at := P_give\<rparr>)
      | P_give \<Rightarrow>
          Some (s\<lparr>consumer_semaphore := xSemaphoreGive (consumer_semaphore s),
                  producer_at := P_take,
                  trace := trace s @ [Give Producer_Task Consumer_Semaphore]\<rparr>))"

text \<open>
  One statement of \<open>consumer_task\<close>. The result is \<open>None\<close> where a read falls
  outside an array; in a run none does (\<open>consumer_step_ok\<close> below).
  \<^verbatim>\<open>
  while (1) {
      xSemaphoreTake(consumer_semaphore, portMAX_DELAY);
      osMutexWait(sensor_buffer_mutex, osWaitForever);
      ... copy-out ...
      osMutexRelease(sensor_buffer_mutex);
      xSemaphoreGive(producer_semaphore);
      ... statistics, filtered_data ...
      broadcast_ble(filtered_data);
  }
  \<close>
\<close>

definition consumer_step :: "system \<Rightarrow> system option" where
  "consumer_step s =
     (case consumer_at s of
        C_take \<Rightarrow>
          (case xSemaphoreTake (consumer_semaphore s) of
             None \<Rightarrow> Some s
           | Some flag \<Rightarrow>
               Some (s\<lparr>consumer_semaphore := flag, consumer_at := C_lock,
                       trace := trace s @ [Take Consumer_Task Consumer_Semaphore]\<rparr>))
      | C_lock \<Rightarrow>
          (case osMutexWait Consumer_Task (sensor_buffer_mutex s) of
             None \<Rightarrow> Some s
           | Some owner \<Rightarrow> Some (s\<lparr>sensor_buffer_mutex := owner, consumer_at := C_copy\<rparr>))
      | C_copy \<Rightarrow>
          (case consumer_copy_out (shared s) (consumer_arrays s) of
             None \<Rightarrow> None
           | Some l \<Rightarrow> Some (s\<lparr>consumer_arrays := l, consumer_at := C_unlock\<rparr>))
      | C_unlock \<Rightarrow>
          Some (s\<lparr>sensor_buffer_mutex := osMutexRelease (sensor_buffer_mutex s),
                  consumer_at := C_give\<rparr>)
      | C_give \<Rightarrow>
          Some (s\<lparr>producer_semaphore := xSemaphoreGive (producer_semaphore s),
                  consumer_at := C_compute,
                  trace := trace s @ [Give Consumer_Task Producer_Semaphore]\<rparr>)
      | C_compute \<Rightarrow>
          (case consumer_statistics (consumer_arrays s) of
             Returns (l, fd) \<Rightarrow>
               Some (s\<lparr>consumer_arrays := l, filtered_data := Some fd,
                       consumer_at := C_broadcast\<rparr>)
           | Out_Of_Bounds \<Rightarrow> None)
      | C_broadcast \<Rightarrow>
          (case filtered_data s of
             None \<Rightarrow> None
           | Some fd \<Rightarrow> Some (s\<lparr>transmitted := transmitted s @ [fd], consumer_at := C_take\<rparr>)))"

text \<open>
  The scheduler picks the task that executes its next statement; both tasks have
  priority 1, so any interleaving is a schedule.
\<close>

datatype choice = Run_Producer sensor_data_t | Run_Consumer

fun sched_step :: "choice \<Rightarrow> system \<Rightarrow> system option" where
  "sched_step (Run_Producer sensor_data) s = producer_step sensor_data s"
| "sched_step Run_Consumer s = consumer_step s"

fun run :: "choice list \<Rightarrow> system \<Rightarrow> system option" where
  "run [] s = Some s"
| "run (c # cs) s = (case sched_step c s of None \<Rightarrow> None | Some s' \<Rightarrow> run cs s')"

text \<open>
  On a trace, oldest event first: every give of \<open>producer_semaphore\<close> is made by the
  consumer task, after the consumer task has been woken by a take of
  \<open>consumer_semaphore\<close> (\<open>woken\<close> says whether that has happened before the trace).
\<close>

fun gives_follow_wake :: "bool \<Rightarrow> event list \<Rightarrow> bool" where
  "gives_follow_wake woken [] = True"
| "gives_follow_wake woken (Take Consumer_Task Consumer_Semaphore # es) =
     gives_follow_wake True es"
| "gives_follow_wake woken (Give t Producer_Semaphore # es) =
     (t = Consumer_Task \<and> woken \<and> gives_follow_wake woken es)"
| "gives_follow_wake woken (e # es) = gives_follow_wake woken es"

text \<open>
  What every state of a run has: the buffer and the consumer's arrays have their declared
  extent, the gives of \<open>producer_semaphore\<close> follow a wake-up of the consumer, the
  consumer is past its first take only if that take is in the trace, and
  \<open>filtered_data\<close> is filled when it is transmitted.
\<close>

definition system_ok :: "system \<Rightarrow> bool" where
  "system_ok s \<longleftrightarrow>
     buffer_ok (shared s) \<and> locals_ok (consumer_arrays s) \<and>
     gives_follow_wake False (trace s) \<and>
     (consumer_at s = C_take \<or> Take Consumer_Task Consumer_Semaphore \<in> set (trace s)) \<and>
     (consumer_at s = C_broadcast \<longrightarrow> filtered_data s \<noteq> None)"

section \<open>Properties of the circular buffer\<close>

lemma smod_in_range:
  "0 \<le> h \<Longrightarrow> (h + 1) smod int BUFFER_SIZE = (h + 1) mod int BUFFER_SIZE"
  by (simp add: signed_modulo_int_def BUFFER_SIZE_def sgn_if)

lemma succ_mod_100_neq:
  assumes "0 \<le> (t::int)" and "t < 100"
  shows "(t + 1) mod 100 \<noteq> t"
proof (cases "t = 99")
  case True
  then show ?thesis by simp
next
  case False
  with assms have "(t + 1) mod 100 = t + 1" by simp
  then show ?thesis by simp
qed

lemma buffer_push_cases:
  assumes "buffer_ok g"
  shows "((buffer_head g + 1) mod int BUFFER_SIZE \<noteq> buffer_tail g \<longrightarrow>
            buffer_push data g =
              Some (True,
                g\<lparr>sensor_buffer := (sensor_buffer g)[nat (buffer_head g) := data],
                  buffer_head := (buffer_head g + 1) mod int BUFFER_SIZE\<rparr>) \<and>
            (sensor_buffer g)[nat (buffer_head g) := data] ! nat (buffer_head g) = data) \<and>
         ((buffer_head g + 1) mod int BUFFER_SIZE = buffer_tail g \<longrightarrow>
            (\<exists>g'. buffer_push data g = Some (False, g')))"
proof -
  from assms have h: "0 \<le> buffer_head g" "buffer_head g < INT_MAX"
    "nat (buffer_head g) < length (sensor_buffer g)"
    by (auto simp add: buffer_ok_def INT_MAX_def BUFFER_SIZE_def)
  have m: "(buffer_head g + 1) smod int BUFFER_SIZE = (buffer_head g + 1) mod int BUFFER_SIZE"
    using h(1) by (rule smod_in_range)
  show ?thesis
    using h by (simp add: buffer_push_def m Let_def)
qed

text \<open>
  C1. In every buffer state with \<open>0 \<le> head, tail < N\<close>: when \<open>(head + 1) mod N \<noteq> tail\<close>,
  \<open>buffer_push\<close> stores the reading at index \<open>head\<close>, sets \<open>head\<close> to
  \<open>(head + 1) mod N\<close> and returns true; when \<open>(head + 1) mod N = tail\<close> it returns false.
\<close>

theorem buffer_push_spec:
  assumes "buffer_ok g"
  shows "((buffer_head g + 1) mod int BUFFER_SIZE \<noteq> buffer_tail g \<longrightarrow>
            buffer_push data g =
              Some (True,
                g\<lparr>sensor_buffer := (sensor_buffer g)[nat (buffer_head g) := data],
                  buffer_head := (buffer_head g + 1) mod int BUFFER_SIZE\<rparr>) \<and>
            (sensor_buffer g)[nat (buffer_head g) := data] ! nat (buffer_head g) = data) \<and>
         ((buffer_head g + 1) mod int BUFFER_SIZE = buffer_tail g \<longrightarrow>
            (\<exists>g'. buffer_push data g = Some (False, g')))"
  using assms by (rule buffer_push_cases)

theorem buffer_push_spec_witness:
  "buffer_ok initial_globals \<and>
   buffer_push \<lparr>PIR = Finite 1, humidity_and_heat = Finite 2, LDR = Finite 3\<rparr> initial_globals =
     Some (True,
       initial_globals
         \<lparr>sensor_buffer :=
            (sensor_buffer initial_globals)[0 := \<lparr>PIR = Finite 1, humidity_and_heat = Finite 2, LDR = Finite 3\<rparr>],
          buffer_head := 1\<rparr>) \<and>
   (\<exists>g'. buffer_push \<lparr>PIR = Finite 1, humidity_and_heat = Finite 2, LDR = Finite 3\<rparr>
            (initial_globals\<lparr>buffer_head := 99\<rparr>) = Some (False, g'))"
proof -
  have ok0: "buffer_ok initial_globals"
    by (simp add: buffer_ok_def initial_globals_def BUFFER_SIZE_def)
  have ok99: "buffer_ok (initial_globals\<lparr>buffer_head := 99\<rparr>)"
    by (simp add: buffer_ok_def initial_globals_def BUFFER_SIZE_def)
  show ?thesis
    using ok0 buffer_push_spec [OF ok0, of "\<lparr>PIR = Finite 1, humidity_and_heat = Finite 2, LDR = Finite 3\<rparr>"]
      buffer_push_spec [OF ok99, of "\<lparr>PIR = Finite 1, humidity_and_heat = Finite 2, LDR = Finite 3\<rparr>"]
    by (simp add: initial_globals_def BUFFER_SIZE_def)
qed

text \<open>
  C10. \<open>buffer_push\<close> changes at most \<open>buffer_head\<close> and the slot at the old head
  index: \<open>buffer_tail\<close> and every other slot are as before, and a call that returns
  false leaves the whole state as it was. In a state with both indices in range the call
  is defined.
\<close>

theorem buffer_push_frame:
  "(buffer_ok g \<longrightarrow> (\<exists>r g'. buffer_push data g = Some (r, g'))) \<and>
   (\<forall>r g'. buffer_push data g = Some (r, g') \<longrightarrow>
      buffer_tail g' = buffer_tail g \<and>
      length (sensor_buffer g') = length (sensor_buffer g) \<and>
      (\<forall>i. i \<noteq> nat (buffer_head g) \<longrightarrow> sensor_buffer g' ! i = sensor_buffer g ! i) \<and>
      (\<not> r \<longrightarrow> g' = g))"
proof -
  have total: "\<exists>r g'. buffer_push data g = Some (r, g')" if ok: "buffer_ok g"
  proof -
    from ok have "buffer_head g < INT_MAX" "0 \<le> buffer_head g"
      "nat (buffer_head g) < length (sensor_buffer g)"
      by (auto simp add: buffer_ok_def INT_MAX_def BUFFER_SIZE_def)
    then show ?thesis
      by (auto simp add: buffer_push_def Let_def)
  qed
  have frame: "buffer_tail g' = buffer_tail g \<and>
      length (sensor_buffer g') = length (sensor_buffer g) \<and>
      (\<forall>i. i \<noteq> nat (buffer_head g) \<longrightarrow> sensor_buffer g' ! i = sensor_buffer g ! i) \<and>
      (\<not> r \<longrightarrow> g' = g)" if "buffer_push data g = Some (r, g')" for r g'
    using that by (auto simp add: buffer_push_def Let_def split: if_splits)
  from total frame show ?thesis by blast
qed

theorem buffer_push_frame_witness:
  "buffer_ok (initial_globals\<lparr>buffer_head := 99\<rparr>) \<and>
   buffer_push \<lparr>PIR = Finite 1, humidity_and_heat = Finite 2, LDR = Finite 3\<rparr> (initial_globals\<lparr>buffer_head := 99\<rparr>) =
     Some (False, initial_globals\<lparr>buffer_head := 99\<rparr>) \<and>
   buffer_ok (initial_globals\<lparr>buffer_head := 5\<rparr>) \<and>
   buffer_push \<lparr>PIR = Finite 1, humidity_and_heat = Finite 2, LDR = Finite 3\<rparr> (initial_globals\<lparr>buffer_head := 5\<rparr>) =
     Some (True,
       initial_globals\<lparr>sensor_buffer :=
           (sensor_buffer initial_globals)[5 := \<lparr>PIR = Finite 1, humidity_and_heat = Finite 2, LDR = Finite 3\<rparr>],
         buffer_head := 6\<rparr>) \<and>
   buffer_tail (initial_globals\<lparr>sensor_buffer :=
           (sensor_buffer initial_globals)[5 := \<lparr>PIR = Finite 1, humidity_and_heat = Finite 2, LDR = Finite 3\<rparr>],
         buffer_head := 6\<rparr>) = buffer_tail (initial_globals\<lparr>buffer_head := 5\<rparr>)"
proof -
  have ok99: "buffer_ok (initial_globals\<lparr>buffer_head := 99\<rparr>)"
    and ok5: "buffer_ok (initial_globals\<lparr>buffer_head := 5\<rparr>)"
    by (simp_all add: buffer_ok_def initial_globals_def BUFFER_SIZE_def)
  have m99: "(100::int) smod 100 = 0" and m5: "(6::int) smod 100 = 6"
    by (simp_all add: signed_modulo_int_def)
  have p99: "buffer_push \<lparr>PIR = Finite 1, humidity_and_heat = Finite 2, LDR = Finite 3\<rparr>
      (initial_globals\<lparr>buffer_head := 99\<rparr>) = Some (False, initial_globals\<lparr>buffer_head := 99\<rparr>)"
    by (simp add: buffer_push_def initial_globals_def BUFFER_SIZE_def INT_MAX_def m99)
  have p5: "buffer_push \<lparr>PIR = Finite 1, humidity_and_heat = Finite 2, LDR = Finite 3\<rparr>
      (initial_globals\<lparr>buffer_head := 5\<rparr>) =
     Some (True,
       initial_globals\<lparr>sensor_buffer :=
           (sensor_buffer initial_globals)[5 := \<lparr>PIR = Finite 1, humidity_and_heat = Finite 2, LDR = Finite 3\<rparr>],
         buffer_head := 6\<rparr>)"
    by (simp add: buffer_push_def initial_globals_def BUFFER_SIZE_def INT_MAX_def m5)
  show ?thesis
    using ok99 ok5 p99 p5
      buffer_push_frame [of "initial_globals\<lparr>buffer_head := 5\<rparr>"
        "\<lparr>PIR = Finite 1, humidity_and_heat = Finite 2, LDR = Finite 3\<rparr>"]
    by simp
qed

lemma producer_iteration_when_full:
  assumes "buffer_ok g" and "buffer_push sensor_data g = Some (False, g1)"
  shows "producer_iteration sensor_data g =
           map_option snd (buffer_push sensor_data
             (g\<lparr>buffer_head := (buffer_head g + 1) mod int BUFFER_SIZE\<rparr>)) \<and>
         producer_iteration sensor_data g =
           Some (g\<lparr>sensor_buffer := (sensor_buffer g)[nat (buffer_tail g) := sensor_data],
                   buffer_head := (buffer_tail g + 1) mod int BUFFER_SIZE\<rparr>) \<and>
         buffer_tail (the (producer_iteration sensor_data g)) = buffer_tail g"
proof -
  from assms(1) have h: "0 \<le> buffer_head g" "buffer_head g < INT_MAX"
    "nat (buffer_head g) < length (sensor_buffer g)"
    and t: "0 \<le> buffer_tail g" "buffer_tail g < INT_MAX"
    "nat (buffer_tail g) < length (sensor_buffer g)" "buffer_tail g < 100"
    by (auto simp add: buffer_ok_def INT_MAX_def BUFFER_SIZE_def)
  have m: "(buffer_head g + 1) smod int BUFFER_SIZE = (buffer_head g + 1) mod int BUFFER_SIZE"
    using h(1) by (rule smod_in_range)
  have mt: "(buffer_tail g + 1) smod int BUFFER_SIZE = (buffer_tail g + 1) mod int BUFFER_SIZE"
    using t(1) by (rule smod_in_range)
  from assms(2) h have full: "(buffer_head g + 1) mod int BUFFER_SIZE = buffer_tail g"
    and g1: "g1 = g"
    by (auto simp add: buffer_push_def m Let_def split: if_splits)
  have ne: "(buffer_tail g + 1) mod int BUFFER_SIZE \<noteq> buffer_tail g"
    using t(1) t(4) by (simp add: BUFFER_SIZE_def succ_mod_100_neq)
  have adv: "advance_head g = Some (g\<lparr>buffer_head := buffer_tail g\<rparr>)"
    using h by (simp add: advance_head_def m full)
  have retry: "buffer_push sensor_data (g\<lparr>buffer_head := buffer_tail g\<rparr>) =
      Some (True, g\<lparr>sensor_buffer := (sensor_buffer g)[nat (buffer_tail g) := sensor_data],
                   buffer_head := (buffer_tail g + 1) mod int BUFFER_SIZE\<rparr>)"
    using t ne by (simp add: buffer_push_def mt Let_def)
  have it: "producer_iteration sensor_data g =
      map_option snd (buffer_push sensor_data (g\<lparr>buffer_head := buffer_tail g\<rparr>))"
    using assms(2) adv by (simp add: producer_iteration_def g1)
  show ?thesis
    by (simp add: it retry full)
qed

text \<open>
  C6. In the producer's batch loop, when \<open>buffer_push\<close> returns false the iteration
  advances \<open>buffer_head\<close> (not \<open>buffer_tail\<close>) by one modulo \<open>N\<close> and calls
  \<open>buffer_push\<close> again with the same reading. The retry then succeeds: it stores the
  reading in the slot \<open>buffer_tail\<close> addresses and leaves \<open>buffer_head\<close> one past
  \<open>buffer_tail\<close>; \<open>buffer_tail\<close> itself is unchanged.
\<close>

theorem producer_iteration_full:
  assumes "buffer_ok g" and "buffer_push sensor_data g = Some (False, g1)"
  shows "producer_iteration sensor_data g =
           map_option snd (buffer_push sensor_data
             (g\<lparr>buffer_head := (buffer_head g + 1) mod int BUFFER_SIZE\<rparr>)) \<and>
         producer_iteration sensor_data g =
           Some (g\<lparr>sensor_buffer := (sensor_buffer g)[nat (buffer_tail g) := sensor_data],
                   buffer_head := (buffer_tail g + 1) mod int BUFFER_SIZE\<rparr>) \<and>
         buffer_tail (the (producer_iteration sensor_data g)) = buffer_tail g"
  using assms by (rule producer_iteration_when_full)

theorem producer_iteration_full_witness:
  "buffer_ok (initial_globals\<lparr>buffer_head := 99\<rparr>) \<and>
   buffer_push \<lparr>PIR = Finite 1, humidity_and_heat = Finite 2, LDR = Finite 3\<rparr> (initial_globals\<lparr>buffer_head := 99\<rparr>) =
     Some (False, initial_globals\<lparr>buffer_head := 99\<rparr>) \<and>
   producer_iteration \<lparr>PIR = Finite 1, humidity_and_heat = Finite 2, LDR = Finite 3\<rparr>
       (initial_globals\<lparr>buffer_head := 99\<rparr>) =
     Some (initial_globals
       \<lparr>sensor_buffer :=
          (sensor_buffer initial_globals)[0 := \<lparr>PIR = Finite 1, humidity_and_heat = Finite 2, LDR = Finite 3\<rparr>],
        buffer_head := 1\<rparr>)"
proof -
  have ok99: "buffer_ok (initial_globals\<lparr>buffer_head := 99\<rparr>)"
    by (simp add: buffer_ok_def initial_globals_def BUFFER_SIZE_def)
  have m99: "(100::int) smod 100 = 0"
    by (simp add: signed_modulo_int_def)
  have p99: "buffer_push \<lparr>PIR = Finite 1, humidity_and_heat = Finite 2, LDR = Finite 3\<rparr>
      (initial_globals\<lparr>buffer_head := 99\<rparr>) = Some (False, initial_globals\<lparr>buffer_head := 99\<rparr>)"
    by (simp add: buffer_push_def initial_globals_def BUFFER_SIZE_def INT_MAX_def m99)
  have r: "producer_iteration \<lparr>PIR = Finite 1, humidity_and_heat = Finite 2, LDR = Finite 3\<rparr>
       (initial_globals\<lparr>buffer_head := 99\<rparr>) =
     Some (initial_globals
       \<lparr>sensor_buffer :=
          (sensor_buffer initial_globals)[0 := \<lparr>PIR = Finite 1, humidity_and_heat = Finite 2, LDR = Finite 3\<rparr>],
        buffer_head := 1\<rparr>)"
    using producer_iteration_full [OF ok99 p99, THEN conjunct2, THEN conjunct1]
    by (simp add: initial_globals_def BUFFER_SIZE_def)
  from ok99 p99 r show ?thesis
    by simp
qed

section \<open>Properties of the arithmetic\<close>

subsection \<open>Rounding\<close>

lemma rne_bounds: "\<lfloor>y\<rfloor> \<le> rne y \<and> rne y \<le> \<lfloor>y\<rfloor> + 1"
  by (simp add: rne_def Let_def)

lemma rne_cases:
  "(y - of_int \<lfloor>y\<rfloor> \<le> 1 / 2 \<and> rne y = \<lfloor>y\<rfloor>) \<or>
   (y - of_int \<lfloor>y\<rfloor> \<ge> 1 / 2 \<and> rne y = \<lfloor>y\<rfloor> + 1)"
  by (auto simp add: rne_def Let_def)

lemma rne_nearest: "\<bar>of_int (rne y) - y\<bar> \<le> \<bar>of_int n - y\<bar>"
proof -
  define f where "f = \<lfloor>y\<rfloor>"
  have f: "of_int f \<le> y" "y < of_int f + 1" unfolding f_def by linarith+
  have n: "real_of_int n \<le> of_int f \<or> of_int f + 1 \<le> real_of_int n"
  proof -
    have "n \<le> f \<or> f + 1 \<le> n" by linarith
    then show ?thesis
      by (metis of_int_1 of_int_add of_int_le_iff)
  qed
  from rne_cases [of y] have
    "(y - of_int f \<le> 1 / 2 \<and> real_of_int (rne y) = of_int f) \<or>
     (y - of_int f \<ge> 1 / 2 \<and> real_of_int (rne y) = of_int f + 1)"
    unfolding f_def by auto
  with f n show ?thesis
    by (elim disjE conjE) linarith+
qed

lemma rne_of_int [simp]: "rne (of_int n) = n"
  by (simp add: rne_def)

lemma round_grid_multiple:
  fixes y :: real and n :: int and p :: nat
  defines "q \<equiv> (2::real) ^ nat (bitlen \<lfloor>\<bar>y\<bar>\<rfloor> - int p)"
  shows "round_grid p y = of_int (rne (y / q)) * q"
    and "\<bar>round_grid p y - y\<bar> \<le> \<bar>of_int n * q - y\<bar>"
proof -
  have q_pos: "0 < q" by (simp add: q_def)
  show r: "round_grid p y = of_int (rne (y / q)) * q"
    by (simp add: round_grid_def q_def Let_def)
  have sc: "\<bar>a - y / q\<bar> * q = \<bar>a * q - y\<bar>" for a :: real
  proof -
    have "\<bar>a - y / q\<bar> * q = \<bar>(a - y / q) * q\<bar>"
      using q_pos by (simp add: abs_mult)
    also have "(a - y / q) * q = a * q - y"
      using q_pos by (simp add: field_simps)
    finally show ?thesis .
  qed
  have "\<bar>of_int (rne (y / q)) - y / q\<bar> \<le> \<bar>of_int n - y / q\<bar>"
    by (rule rne_nearest)
  then have "\<bar>of_int (rne (y / q)) - y / q\<bar> * q \<le> \<bar>of_int n - y / q\<bar> * q"
    using q_pos by (simp add: mult_right_mono)
  then show "\<bar>round_grid p y - y\<bar> \<le> \<bar>of_int n * q - y\<bar>"
    by (simp only: sc r)
qed

lemma round_grid_nearest:
  assumes "0 < p" and "on_grid p g"
  shows "\<bar>round_grid p y - y\<bar> \<le> \<bar>g - y\<bar>"
proof -
  define N where "N = \<lfloor>\<bar>y\<bar>\<rfloor>"
  define k where "k = nat (bitlen N - int p)"
  define q where "q = (2::real) ^ k"
  have mult: "\<bar>round_grid p y - y\<bar> \<le> \<bar>of_int n * q - y\<bar>" for n :: int
    using round_grid_multiple(2) [of p y n] by (simp add: q_def k_def N_def)
  from assms(2) obtain m :: int and j :: nat where m: "\<bar>m\<bar> < 2 ^ p" and g: "g = of_int m * 2 ^ j"
    unfolding on_grid_def by blast
  show ?thesis
  proof (cases "k \<le> j")
    case True
    then have "(2::real) ^ j = 2 ^ (j - k) * 2 ^ k"
      by (simp flip: power_add)
    then have "g = of_int (m * 2 ^ (j - k)) * q"
      by (simp add: g q_def)
    with mult [of "m * 2 ^ (j - k)"] show ?thesis by simp
  next
    case False
    then have jk: "j < k" by simp
    then have kpos: "0 < k" by simp
    then have bl: "bitlen N = int p + int k"
      unfolding k_def by linarith
    then have Npos: "0 < N"
      using kpos bitlen_eq_zero_iff [of N] by linarith
    define T where "T = (2::real) ^ (p + k - 1)"
    have "nat (bitlen N - 1) = p + k - 1"
      using bl assms(1) by linarith
    with bitlen_bounds [OF Npos] have "(2::int) ^ (p + k - 1) \<le> N" by simp
    then have "real_of_int ((2::int) ^ (p + k - 1)) \<le> of_int N"
      by (simp only: of_int_le_iff)
    then have "T \<le> of_int N" by (simp add: T_def)
    also have "of_int N \<le> \<bar>y\<bar>" unfolding N_def by linarith
    finally have Ty: "T \<le> \<bar>y\<bar>" .
    have "p + k - 1 = (p - 1) + k" using assms(1) by simp
    then have Tq: "T = of_int (2 ^ (p - 1)) * q"
      by (simp add: T_def q_def power_add)
    have gT: "\<bar>g\<bar> < T"
    proof -
      from m have "real_of_int \<bar>m\<bar> < 2 ^ p"
        by (metis of_int_less_iff of_int_numeral of_int_power)
      then have "real_of_int \<bar>m\<bar> * 2 ^ j < 2 ^ p * 2 ^ j"
        by (simp add: mult_strict_right_mono)
      also have "(2::real) ^ p * 2 ^ j = 2 ^ (p + j)" by (simp add: power_add)
      also have "(2::real) ^ (p + j) \<le> 2 ^ (p + k - 1)"
        using jk by (intro power_increasing) simp_all
      finally show ?thesis
        by (simp add: g T_def abs_mult)
    qed
    have "\<bar>round_grid p y - y\<bar> \<le> \<bar>y\<bar> - T"
    proof (cases "0 \<le> y")
      case True
      from mult [of "2 ^ (p - 1)"] have "\<bar>round_grid p y - y\<bar> \<le> \<bar>T - y\<bar>"
        by (simp only: Tq)
      with True Ty show ?thesis by linarith
    next
      case False
      from mult [of "- (2 ^ (p - 1))"] have "\<bar>round_grid p y - y\<bar> \<le> \<bar>- T - y\<bar>"
        by (simp add: Tq)
      with False Ty show ?thesis by linarith
    qed
    moreover have "\<bar>y\<bar> - T < \<bar>g - y\<bar>"
      using gT by linarith
    ultimately show ?thesis by linarith
  qed
qed

lemma round_grid_on_grid:
  assumes "0 < p"
  shows "on_grid p (round_grid p y)"
proof -
  define N where "N = \<lfloor>\<bar>y\<bar>\<rfloor>"
  define k where "k = nat (bitlen N - int p)"
  define q where "q = (2::real) ^ k"
  define n where "n = rne (y / q)"
  have q_pos: "0 < q" by (simp add: q_def)
  have r: "round_grid p y = of_int n * q"
    using round_grid_multiple(1) [of p y] by (simp add: q_def k_def N_def n_def)
  have N0: "0 \<le> N" unfolding N_def by simp
  have Nb: "N < 2 ^ (p + k)"
  proof (cases "0 < N")
    case True
    from bitlen_bounds [OF True] have "N < 2 ^ nat (bitlen N)" by simp
    also have "(2::int) ^ nat (bitlen N) \<le> 2 ^ (p + k)"
      unfolding k_def by (intro power_increasing) linarith+
    finally show ?thesis .
  next
    case False
    with N0 have "N = 0" by simp
    then show ?thesis by simp
  qed
  then have "N + 1 \<le> 2 ^ (p + k)" by simp
  then have "real_of_int (N + 1) \<le> real_of_int (2 ^ (p + k))"
    by (simp only: of_int_le_iff)
  moreover have "\<bar>y\<bar> < of_int (N + 1)" unfolding N_def by linarith
  ultimately have yb: "\<bar>y\<bar> < 2 ^ (p + k)" by simp
  have "\<bar>y / q\<bar> < 2 ^ p"
  proof -
    have "\<bar>y / q\<bar> = \<bar>y\<bar> / q" using q_pos by simp
    also have "\<dots> < 2 ^ (p + k) / q"
      using yb q_pos by (simp add: divide_strict_right_mono)
    also have "\<dots> = 2 ^ p" by (simp add: q_def power_add)
    finally show ?thesis .
  qed
  then have z: "y / q < 2 ^ p" "- (2 ^ p) < y / q" by linarith+
  have "\<lfloor>y / q\<rfloor> < 2 ^ p"
    using z(1) by (simp add: floor_less_iff)
  moreover have "- (2 ^ p) \<le> \<lfloor>y / q\<rfloor>"
    using z(2) by (simp add: le_floor_iff)
  ultimately have nb: "\<bar>n\<bar> \<le> 2 ^ p"
    using rne_bounds [of "y / q"] unfolding n_def by linarith
  show ?thesis
  proof (cases "\<bar>n\<bar> < 2 ^ p")
    case True
    with r show ?thesis
      unfolding on_grid_def q_def by blast
  next
    case False
    with nb have "\<bar>n\<bar> = 2 ^ p" by simp
    then have "n = 2 ^ p \<or> n = - (2 ^ p)" by linarith
    moreover have "(2::int) ^ p = 2 ^ (p - 1) * 2"
      using assms by (cases p) simp_all
    ultimately have "n = 2 ^ (p - 1) * 2 \<or> n = - (2 ^ (p - 1)) * 2" by simp
    then have "real_of_int n = of_int (2 ^ (p - 1)) * 2 \<or>
        real_of_int n = of_int (- (2 ^ (p - 1))) * 2"
      by (metis of_int_mult of_int_numeral)
    moreover have "real_of_int n * 2 ^ k = c * 2 ^ (k + 1)" if "real_of_int n = c * 2" for c :: real
      using that by simp
    ultimately have "round_grid p y = of_int (2 ^ (p - 1)) * 2 ^ (k + 1) \<or>
        round_grid p y = of_int (- (2 ^ (p - 1))) * 2 ^ (k + 1)"
      unfolding r q_def by blast
    moreover have "\<bar>(2::int) ^ (p - 1)\<bar> < 2 ^ p" "\<bar>- ((2::int) ^ (p - 1))\<bar> < 2 ^ p"
      using assms by simp_all
    ultimately show ?thesis
      unfolding on_grid_def by blast
  qed
qed

lemma round_grid_id:
  assumes "0 < p" and "on_grid p y"
  shows "round_grid p y = y"
  using round_grid_nearest [OF assms, of y] by simp

lemma round_grid_mono:
  assumes "0 < p" and "x \<le> y"
  shows "round_grid p x \<le> round_grid p y"
proof (rule ccontr)
  assume "\<not> round_grid p x \<le> round_grid p y"
  then have lt: "round_grid p y < round_grid p x" by simp
  have "\<bar>round_grid p x - x\<bar> \<le> \<bar>round_grid p y - x\<bar>"
    using assms(1) round_grid_on_grid [OF assms(1)] by (rule round_grid_nearest)
  moreover have "\<bar>round_grid p y - y\<bar> \<le> \<bar>round_grid p x - y\<bar>"
    using assms(1) round_grid_on_grid [OF assms(1)] by (rule round_grid_nearest)
  ultimately have "x = y"
    using lt assms(2) by linarith
  with lt show False by simp
qed

lemma representable_iff:
  assumes "0 < p"
  shows "representable p s x \<longleftrightarrow> on_grid p (x * 2 ^ s)"
proof
  assume "representable p s x"
  then have "round_grid p (x * 2 ^ s) = x * 2 ^ s"
    by (simp add: representable_def round_to_def field_simps)
  with round_grid_on_grid [OF assms, of "x * 2 ^ s"] show "on_grid p (x * 2 ^ s)"
    by simp
next
  assume "on_grid p (x * 2 ^ s)"
  with assms have "round_grid p (x * 2 ^ s) = x * 2 ^ s"
    by (rule round_grid_id)
  then show "representable p s x"
    by (simp add: representable_def round_to_def)
qed

lemma representableI:
  assumes "0 < p" and "\<bar>m\<bar> < 2 ^ p" and "x * 2 ^ s = of_int m * 2 ^ k"
  shows "representable p s x"
  using assms unfolding representable_iff [OF assms(1)] on_grid_def by blast

lemma representableE:
  assumes "0 < p" and "representable p s x"
  obtains m :: int and k :: nat where "\<bar>m\<bar> < 2 ^ p" and "x * 2 ^ s = of_int m * 2 ^ k"
  using assms unfolding representable_iff [OF assms(1)] on_grid_def by blast

lemma round_to_id: "representable p s x \<Longrightarrow> round_to p s x = x"
  by (simp add: representable_def)

lemma round_to_representable:
  assumes "0 < p"
  shows "representable p s (round_to p s x)"
  unfolding representable_iff [OF assms] round_to_def
  using round_grid_on_grid [OF assms, of "x * 2 ^ s"] by simp

lemma round_to_mono:
  assumes "0 < p" and "x \<le> y"
  shows "round_to p s x \<le> round_to p s y"
proof -
  from assms(2) have "x * 2 ^ s \<le> y * 2 ^ s" by simp
  with assms(1) have "round_grid p (x * 2 ^ s) \<le> round_grid p (y * 2 ^ s)"
    by (rule round_grid_mono)
  then show ?thesis
    by (simp add: round_to_def divide_right_mono)
qed

lemma representable_double:
  assumes "0 < p" and "representable p s x"
  shows "representable p s (2 * x)"
proof -
  from assms obtain m :: int and k :: nat where m: "\<bar>m\<bar> < 2 ^ p" "x * 2 ^ s = of_int m * 2 ^ k"
    by (rule representableE)
  from m(2) have "2 * x * 2 ^ s = of_int m * 2 ^ (k + 1)" by simp
  with assms(1) m(1) show ?thesis by (rule representableI)
qed

lemma representable_wider_half:
  assumes "0 < p" and "representable p s x" and "p \<le> p'" and "s < s'"
  shows "representable p' s' (x / 2)"
proof -
  from assms(1,2) obtain m :: int and k :: nat where
    m: "\<bar>m\<bar> < 2 ^ p" "x * 2 ^ s = of_int m * 2 ^ k"
    by (rule representableE)
  from assms(4) obtain d where d: "s' = s + 1 + d"
    by (metis Suc_eq_plus1 less_iff_Suc_add add.assoc add.commute)
  have "x / 2 * 2 ^ s' = (x * 2 ^ s) * 2 ^ d"
    by (simp add: d power_add)
  also have "\<dots> = of_int m * 2 ^ (k + d)"
    by (simp add: m(2) power_add)
  finally have e: "x / 2 * 2 ^ s' = of_int m * 2 ^ (k + d)" .
  have "(2::int) ^ p \<le> 2 ^ p'"
    using assms(3) by (intro power_increasing) simp_all
  with m(1) have "\<bar>m\<bar> < 2 ^ p'" by linarith
  moreover from assms(1,3) have "0 < p'" by simp
  ultimately show ?thesis using e by (intro representableI)
qed

lemma representable_of_int:
  assumes "0 < p" and "\<bar>m\<bar> < 2 ^ p"
  shows "representable p s (of_int m)"
proof -
  have "real_of_int m * 2 ^ s = of_int m * 2 ^ s" ..
  with assms show ?thesis by (rule representableI)
qed


lemma to_format_id:
  assumes "representable p s x" and "\<bar>x\<bar> < 2 ^ h"
  shows "to_format p s h x = Finite x"
  using assms by (simp add: to_format_def round_to_id Let_def) linarith

lemma to_format_between:
  assumes "0 < p" and "representable p s lo" and "representable p s hi"
    and "lo \<le> x" and "x \<le> hi" and "- (2 ^ h) < lo" and "hi < 2 ^ h"
  shows "\<exists>r. to_format p s h x = Finite r \<and> lo \<le> r \<and> r \<le> hi \<and> representable p s r"
proof -
  have "round_to p s lo \<le> round_to p s x" "round_to p s x \<le> round_to p s hi"
    using assms(1,4,5) by (simp_all add: round_to_mono)
  then have b: "lo \<le> round_to p s x" "round_to p s x \<le> hi"
    using assms(2,3) by (simp_all add: round_to_id)
  with assms(6,7) have "to_format p s h x = Finite (round_to p s x)"
    by (simp add: to_format_def Let_def)
  with b round_to_representable [OF assms(1), of s x] show ?thesis by blast
qed

lemma to_binary32_id:
  "representable 24 149 x \<Longrightarrow> \<bar>x\<bar> < 2 ^ 128 \<Longrightarrow> to_binary32 x = Finite x"
  unfolding to_binary32_def by (rule to_format_id)

lemma to_binary64_id:
  "representable 53 1074 x \<Longrightarrow> \<bar>x\<bar> < 2 ^ 1024 \<Longrightarrow> to_binary64 x = Finite x"
  unfolding to_binary64_def by (rule to_format_id)



lemma to_binary32_of_int:
  assumes "\<bar>m\<bar> < 16777216"
  shows "to_binary32 (of_int m) = Finite (of_int m)"
proof (rule to_binary32_id)
  from assms have "\<bar>m\<bar> < 2 ^ 24" by simp
  then show "representable 24 149 (real_of_int m)"
    by (intro representable_of_int) simp_all
  from assms have "\<bar>real_of_int m\<bar> < 16777216"
    by (metis of_int_abs of_int_less_iff of_int_numeral)
  then show "\<bar>real_of_int m\<bar> < 2 ^ 128" by simp
qed

lemma to_binary32_numeral:
  "numeral k < (16777216::int) \<Longrightarrow> to_binary32 (numeral k) = Finite (numeral k)"
  using to_binary32_of_int [of "numeral k"] by simp

lemma to_binary32_0 [simp]: "to_binary32 0 = Finite 0"
  using to_binary32_of_int [of 0] by simp

lemma to_binary32_1 [simp]: "to_binary32 1 = Finite 1"
  using to_binary32_of_int [of 1] by simp

lemma to_binary64_of_int:
  assumes "\<bar>m\<bar> < 9007199254740992"
  shows "to_binary64 (of_int m) = Finite (of_int m)"
proof (rule to_binary64_id)
  from assms have "\<bar>m\<bar> < 2 ^ 53" by simp
  then show "representable 53 1074 (real_of_int m)"
    by (intro representable_of_int) simp_all
  from assms have "\<bar>real_of_int m\<bar> < 9007199254740992"
    by (metis of_int_abs of_int_less_iff of_int_numeral)
  also have "(9007199254740992::real) \<le> 2 ^ 1024"
    using power_increasing [of 53 1024 "2::real"] by simp
  finally show "\<bar>real_of_int m\<bar> < 2 ^ 1024" .
qed

lemma to_binary64_numeral:
  "numeral k < (9007199254740992::int) \<Longrightarrow> to_binary64 (numeral k) = Finite (numeral k)"
  using to_binary64_of_int [of "numeral k"] by simp

lemma to_binary64_0 [simp]: "to_binary64 0 = Finite 0"
  using to_binary64_of_int [of 0] by simp

lemma to_binary64_1 [simp]: "to_binary64 1 = Finite 1"
  using to_binary64_of_int [of 1] by simp


section \<open>Properties of the statistics\<close>

subsection \<open>The loops\<close>

lemma c_greater_iff: "x \<noteq> NaN \<Longrightarrow> y \<noteq> NaN \<Longrightarrow> c_greater x y \<longleftrightarrow> y < x"
  by (simp add: c_greater_def)

lemma c_less_iff: "x \<noteq> NaN \<Longrightarrow> y \<noteq> NaN \<Longrightarrow> c_less x y \<longleftrightarrow> x < y"
  by (simp add: c_less_def)

lemma max_if: "x \<noteq> NaN \<Longrightarrow> m \<noteq> NaN \<Longrightarrow> (if c_greater x m then x else m) = max x m"
  and min_if: "x \<noteq> NaN \<Longrightarrow> m \<noteq> NaN \<Longrightarrow> (if c_less x m then x else m) = min x m"
  by (auto simp add: c_greater_iff c_less_iff max_def min_def)

lemma sum_loop_total:
  "cnt \<le> length data \<Longrightarrow> \<exists>v. sum_loop data cnt i s = Returns v"
proof (induction data cnt i s rule: sum_loop.induct)
  case (1 data cnt i s)
  show ?case
  proof (cases "i < cnt")
    case True
    with 1 show ?thesis
      by (subst sum_loop.simps) simp
  next
    case False
    then show ?thesis
      by (subst sum_loop.simps) simp
  qed
qed

lemma dev_loop_total:
  "cnt \<le> length data \<Longrightarrow> \<exists>v. dev_loop data cnt mean i s = Returns v"
proof (induction data cnt mean i s rule: dev_loop.induct)
  case (1 data cnt mean i s)
  show ?case
  proof (cases "i < cnt")
    case True
    with 1 show ?thesis
      by (subst dev_loop.simps) simp
  next
    case False
    then show ?thesis
      by (subst dev_loop.simps) simp
  qed
qed

lemma max_loop_total:
  "cnt \<le> length data \<Longrightarrow> \<exists>v. max_loop data cnt i m = Returns v"
proof (induction data cnt i m rule: max_loop.induct)
  case (1 data cnt i m)
  show ?case
  proof (cases "i < cnt")
    case True
    with 1 show ?thesis
      by (subst max_loop.simps) simp
  next
    case False
    then show ?thesis
      by (subst max_loop.simps) simp
  qed
qed

lemma min_loop_total:
  "cnt \<le> length data \<Longrightarrow> \<exists>v. min_loop data cnt i m = Returns v"
proof (induction data cnt i m rule: min_loop.induct)
  case (1 data cnt i m)
  show ?case
  proof (cases "i < cnt")
    case True
    with 1 show ?thesis
      by (subst min_loop.simps) simp
  next
    case False
    then show ?thesis
      by (subst min_loop.simps) simp
  qed
qed

lemma max_loop_eq:
  "i \<le> cnt \<Longrightarrow> cnt \<le> length data \<Longrightarrow> NaN \<notin> set data \<Longrightarrow> m \<noteq> NaN \<Longrightarrow>
   max_loop data cnt i m = Returns (fold max (map ((!) data) [i..<cnt]) m)"
proof (induction data cnt i m rule: max_loop.induct)
  case (1 data cnt i m)
  show ?case
  proof (cases "i < cnt")
    case True
    with "1.prems" have x: "data ! i \<noteq> NaN"
      by (metis nth_mem less_le_trans)
    then have e: "(if c_greater (data ! i) m then data ! i else m) = max (data ! i) m"
      using "1.prems"(4) by (rule max_if)
    have n: "max (data ! i) m \<noteq> NaN"
      using x "1.prems"(4) by (simp add: max_def)
    from True "1.prems" have "i < length data" by simp
    with True "1.IH" [OF True this] "1.prems" n show ?thesis
      by (subst max_loop.simps) (simp add: upt_conv_Cons e)
  next
    case False
    with 1 show ?thesis
      by (subst max_loop.simps) simp
  qed
qed

lemma min_loop_eq:
  "i \<le> cnt \<Longrightarrow> cnt \<le> length data \<Longrightarrow> NaN \<notin> set data \<Longrightarrow> m \<noteq> NaN \<Longrightarrow>
   min_loop data cnt i m = Returns (fold min (map ((!) data) [i..<cnt]) m)"
proof (induction data cnt i m rule: min_loop.induct)
  case (1 data cnt i m)
  show ?case
  proof (cases "i < cnt")
    case True
    with "1.prems" have x: "data ! i \<noteq> NaN"
      by (metis nth_mem less_le_trans)
    then have e: "(if c_less (data ! i) m then data ! i else m) = min (data ! i) m"
      using "1.prems"(4) by (rule min_if)
    have n: "min (data ! i) m \<noteq> NaN"
      using x "1.prems"(4) by (simp add: min_def)
    from True "1.prems" have "i < length data" by simp
    with True "1.IH" [OF True this] "1.prems" n show ?thesis
      by (subst min_loop.simps) (simp add: upt_conv_Cons e)
  next
    case False
    with 1 show ?thesis
      by (subst min_loop.simps) simp
  qed
qed

lemma nth_list_split:
  assumes "0 < length data"
  shows "data ! 0 # map ((!) data) [1..<length data] = data"
proof -
  have "[0..<length data] = 0 # [1..<length data]"
    using assms by (subst upt_rec) simp
  then have "map ((!) data) [0..<length data] = data ! 0 # map ((!) data) [1..<length data]"
    by simp
  then show ?thesis
    by (simp add: map_nth)
qed

lemma calculate_max_eq:
  assumes "0 < length data" and "NaN \<notin> set data"
  shows "calculate_max data (length data) = Returns (Max (set data))"
proof -
  from assms have "data ! 0 \<noteq> NaN" by (metis nth_mem)
  with assms have "max_loop data (length data) 1 (data ! 0) =
      Returns (fold max (map ((!) data) [1..<length data]) (data ! 0))"
    by (intro max_loop_eq) (simp_all add: Suc_leI)
  also have "fold max (map ((!) data) [1..<length data]) (data ! 0) =
      Max (set (data ! 0 # map ((!) data) [1..<length data]))"
    by (rule Max.set_eq_fold [symmetric])
  also have "data ! 0 # map ((!) data) [1..<length data] = data"
    using assms(1) by (rule nth_list_split)
  finally show ?thesis
    using assms by (simp add: calculate_max_def)
qed

lemma calculate_min_eq:
  assumes "0 < length data" and "NaN \<notin> set data"
  shows "calculate_min data (length data) = Returns (Min (set data))"
proof -
  from assms have "data ! 0 \<noteq> NaN" by (metis nth_mem)
  with assms have "min_loop data (length data) 1 (data ! 0) =
      Returns (fold min (map ((!) data) [1..<length data]) (data ! 0))"
    by (intro min_loop_eq) (simp_all add: Suc_leI)
  also have "fold min (map ((!) data) [1..<length data]) (data ! 0) =
      Min (set (data ! 0 # map ((!) data) [1..<length data]))"
    by (rule Min.set_eq_fold [symmetric])
  also have "data ! 0 # map ((!) data) [1..<length data] = data"
    using assms(1) by (rule nth_list_split)
  finally show ?thesis
    using assms by (simp add: calculate_min_def)
qed

subsection \<open>The exchange sort of \<open>calculate_median\<close>\<close>

lemma median_inner_total:
  "i < length data \<Longrightarrow> cnt \<le> length data \<Longrightarrow>
   \<exists>d. median_inner cnt i j data = Returns d \<and> length d = length data \<and> mset d = mset data"
proof (induction cnt i j data rule: median_inner.induct)
  case (1 cnt i j data)
  show ?case
  proof (cases "j < cnt")
    case False
    then show ?thesis
      by (subst median_inner.simps) simp
  next
    case True
    define data' where
      "data' = (if c_greater (data ! i) (data ! j) then data[i := data ! j, j := data ! i]
                else data)"
    from True "1.prems" have bounds: "i < length data \<and> j < length data"
      by simp
    have len: "length data' = length data"
      by (simp add: data'_def)
    have ms: "mset data' = mset data"
      using bounds by (simp add: data'_def mset_swap)
    have "\<exists>d. median_inner cnt i (j + 1) data' = Returns d \<and> length d = length data' \<and>
        mset d = mset data'"
      unfolding data'_def using True bounds "1.prems"
      by (intro "1.IH") simp_all
    moreover have "median_inner cnt i j data = median_inner cnt i (j + 1) data'"
      using True bounds by (subst median_inner.simps) (simp add: data'_def)
    ultimately show ?thesis
      using len ms by simp
  qed
qed

lemma median_inner_spec:
  "i < j \<Longrightarrow> j \<le> cnt \<Longrightarrow> cnt = length data \<Longrightarrow> NaN \<notin> set data \<Longrightarrow>
   (\<forall>k. i < k \<and> k < j \<longrightarrow> data ! i \<le> data ! k) \<Longrightarrow>
   \<exists>d. median_inner cnt i j data = Returns d \<and> length d = length data \<and>
       mset d = mset data \<and> (\<forall>k<i. d ! k = data ! k) \<and>
       (\<forall>k. i < k \<and> k < cnt \<longrightarrow> d ! i \<le> d ! k)"
proof (induction cnt i j data rule: median_inner.induct)
  case (1 cnt i j data)
  show ?case
  proof (cases "j < cnt")
    case False
    with "1.prems" have "j = cnt" by simp
    with "1.prems" show ?thesis
      by (subst median_inner.simps) simp
  next
    case True
    define data' where
      "data' = (if c_greater (data ! i) (data ! j) then data[i := data ! j, j := data ! i]
                else data)"
    from True "1.prems" have bounds: "i < length data" "j < length data" "i \<noteq> j"
      by simp_all
    with "1.prems"(4) have nn: "data ! i \<noteq> NaN" "data ! j \<noteq> NaN"
      by (metis nth_mem)+
    then have gt: "c_greater (data ! i) (data ! j) \<longleftrightarrow> data ! j < data ! i"
      by (rule c_greater_iff)
    have len: "length data' = length data"
      by (simp add: data'_def)
    have ms: "mset data' = mset data"
      using bounds by (simp add: data'_def mset_swap)
    then have "set data' = set data"
      by (rule mset_eq_setD)
    with "1.prems"(4) have nan': "NaN \<notin> set data'" by simp
    have pre: "\<forall>k<i. data' ! k = data ! k"
      using bounds "1.prems"(1) by (simp add: data'_def)
    have low: "\<forall>k. i < k \<and> k < j + 1 \<longrightarrow> data' ! i \<le> data' ! k"
    proof (intro allI impI)
      fix k assume k: "i < k \<and> k < j + 1"
      show "data' ! i \<le> data' ! k"
      proof (cases "data ! j < data ! i")
        case False
        with k "1.prems"(5) show ?thesis
          by (cases "k = j") (simp_all add: data'_def gt)
      next
        case sw: True
        show ?thesis
        proof (cases "k = j")
          case True
          with sw bounds show ?thesis by (simp add: data'_def gt)
        next
          case False
          with k have "i < k \<and> k < j" by simp
          with "1.prems"(5) have "data ! i \<le> data ! k" by blast
          with sw bounds k False show ?thesis
            by (simp add: data'_def gt)
        qed
      qed
    qed
    have "\<exists>d. median_inner cnt i (j + 1) data' = Returns d \<and> length d = length data' \<and>
       mset d = mset data' \<and> (\<forall>k<i. d ! k = data' ! k) \<and>
       (\<forall>k. i < k \<and> k < cnt \<longrightarrow> d ! i \<le> d ! k)"
      unfolding data'_def
    proof (rule "1.IH")
      show "j < cnt" by (rule True)
      show "i < length data \<and> j < length data" using bounds by simp
      show "i < j + 1" using "1.prems"(1) by simp
      show "j + 1 \<le> cnt" using True by simp
      show "cnt = length (if c_greater (data ! i) (data ! j)
          then data[i := data ! j, j := data ! i] else data)"
        using "1.prems"(3) by simp
      show "NaN \<notin> set (if c_greater (data ! i) (data ! j)
          then data[i := data ! j, j := data ! i] else data)"
        using nan' unfolding data'_def .
      show "\<forall>k. i < k \<and> k < j + 1 \<longrightarrow>
          (if c_greater (data ! i) (data ! j) then data[i := data ! j, j := data ! i]
           else data) ! i
          \<le> (if c_greater (data ! i) (data ! j) then data[i := data ! j, j := data ! i]
              else data) ! k"
        using low unfolding data'_def .
    qed
    then obtain d where d: "median_inner cnt i (j + 1) data' = Returns d"
      "length d = length data'" "mset d = mset data'" "\<forall>k<i. d ! k = data' ! k"
      "\<forall>k. i < k \<and> k < cnt \<longrightarrow> d ! i \<le> d ! k"
      by blast
    have "median_inner cnt i j data = median_inner cnt i (j + 1) data'"
      using True bounds by (subst median_inner.simps) (simp add: data'_def)
    with d len ms pre show ?thesis
      by simp
  qed
qed

lemma uint32_pred_pos: "0 < cnt \<Longrightarrow> uint32_pred cnt = cnt - 1"
  by (simp add: uint32_pred_def)

lemma mset_drop_eq:
  assumes "mset d = mset data" and "take i d = take i data"
  shows "mset (drop i d) = mset (drop i data)"
proof -
  have "mset (take i d) + mset (drop i d) = mset (take i data) + mset (drop i data)"
    using assms(1) by (simp flip: mset_append)
  with assms(2) show ?thesis by simp
qed

lemma median_outer_total:
  "0 < cnt \<Longrightarrow> cnt \<le> length data \<Longrightarrow>
   \<exists>d. median_outer cnt i data = Returns d \<and> length d = length data \<and> mset d = mset data"
proof (induction cnt i data rule: median_outer.induct)
  case (1 cnt i data)
  from "1.prems" have up: "uint32_pred cnt = cnt - 1"
    by (simp add: uint32_pred_pos)
  show ?case
  proof (cases "i < cnt - 1")
    case False
    with up show ?thesis
      by (subst median_outer.simps) simp
  next
    case True
    with "1.prems" have "i < length data" by simp
    from median_inner_total [OF this "1.prems"(2), of "i + 1"]
    obtain d1 where d1: "median_inner cnt i (i + 1) data = Returns d1"
      "length d1 = length data" "mset d1 = mset data"
      by blast
    have "\<exists>d. median_outer cnt (i + 1) d1 = Returns d \<and> length d = length d1 \<and>
        mset d = mset d1"
      using True up d1 "1.prems" by (intro "1.IH") simp_all
    moreover have "median_outer cnt i data = median_outer cnt (i + 1) d1"
      using True up d1(1) by (subst median_outer.simps) simp
    ultimately show ?thesis
      using d1 by simp
  qed
qed

lemma median_outer_spec:
  "0 < cnt \<Longrightarrow> cnt = length data \<Longrightarrow> i < cnt \<Longrightarrow> NaN \<notin> set data \<Longrightarrow>
   sorted (take i data) \<Longrightarrow>
   (\<forall>a\<in>set (take i data). \<forall>b\<in>set (drop i data). a \<le> b) \<Longrightarrow>
   \<exists>d. median_outer cnt i data = Returns d \<and> mset d = mset data \<and> sorted d"
proof (induction cnt i data rule: median_outer.induct)
  case (1 cnt i data)
  from "1.prems" have up: "uint32_pred cnt = cnt - 1"
    by (simp add: uint32_pred_pos)
  show ?case
  proof (cases "i < cnt - 1")
    case False
    with "1.prems" have i: "i = length data - 1" by simp
    have "data = take i data @ drop i data" by simp
    moreover have "sorted (drop i data)"
      using i "1.prems"(1,2) by (simp add: sorted01)
    ultimately have "sorted data"
      using "1.prems"(5,6) by (metis sorted_append)
    with False up show ?thesis
      by (subst median_outer.simps) simp
  next
    case True
    from True "1.prems" have "i < i + 1" "i + 1 \<le> cnt" "cnt = length data" "NaN \<notin> set data"
      "\<forall>k. i < k \<and> k < i + 1 \<longrightarrow> data ! i \<le> data ! k"
      by auto
    from median_inner_spec [OF this]
    obtain d1 where d1: "median_inner cnt i (i + 1) data = Returns d1"
      "length d1 = length data" "mset d1 = mset data" "\<forall>k<i. d1 ! k = data ! k"
      "\<forall>k. i < k \<and> k < cnt \<longrightarrow> d1 ! i \<le> d1 ! k"
      by blast
    from d1(3) have "set d1 = set data" by (rule mset_eq_setD)
    with "1.prems"(4) have nan1: "NaN \<notin> set d1" by simp
    have tk: "take i d1 = take i data"
      using d1(2,4) by (simp add: list_eq_iff_nth_eq)
    have dr: "mset (drop i d1) = mset (drop i data)"
      using d1(3) tk by (rule mset_drop_eq)
    then have sdr: "set (drop i d1) = set (drop i data)"
      by (rule mset_eq_setD)
    have ilen: "i < length d1" using True d1(2) "1.prems"(2) by simp
    have mem: "d1 ! i \<in> set (drop i d1)"
      using ilen by (metis Cons_nth_drop_Suc list.set_intros(1))
    have tk1: "take (i + 1) d1 = take i d1 @ [d1 ! i]"
      using ilen by (simp add: take_Suc_conv_app_nth)
    have "sorted (take i d1 @ [d1 ! i])"
      using "1.prems"(5,6) mem by (simp add: sorted_append tk sdr)
    then have s1: "sorted (take (i + 1) d1)"
      by (simp only: tk1)
    have sub: "set (drop (i + 1) d1) \<subseteq> set (drop i d1)"
      by (rule set_drop_subset_set_drop) simp
    have b1: "\<forall>a\<in>set (take (i + 1) d1). \<forall>b\<in>set (drop (i + 1) d1). a \<le> b"
    proof (intro ballI)
      fix a b assume a: "a \<in> set (take (i + 1) d1)" and b: "b \<in> set (drop (i + 1) d1)"
      from a have "a \<in> set (take i d1 @ [d1 ! i])"
        by (simp only: tk1)
      then have "a \<in> set (take i data) \<or> a = d1 ! i"
        by (auto simp add: tk)
      then show "a \<le> b"
      proof
        assume "a \<in> set (take i data)"
        moreover from b sub sdr have "b \<in> set (drop i data)" by blast
        ultimately show ?thesis using "1.prems"(6) by blast
      next
        assume a': "a = d1 ! i"
        from b obtain k where "k < length (drop (i + 1) d1)" "b = drop (i + 1) d1 ! k"
          by (metis in_set_conv_nth)
        then have "b = d1 ! (i + 1 + k)" "i < i + 1 + k" "i + 1 + k < cnt"
          using d1(2) "1.prems"(2) by simp_all
        with d1(5) a' show ?thesis by blast
      qed
    qed
    have "\<exists>d. median_outer cnt (i + 1) d1 = Returns d \<and> mset d = mset d1 \<and> sorted d"
    proof (rule "1.IH")
      show "i < uint32_pred cnt" using True up by simp
      show "median_inner cnt i (i + 1) data = Returns d1" by (rule d1(1))
      show "0 < cnt" by (rule "1.prems"(1))
      show "cnt = length d1" using d1(2) "1.prems"(2) by simp
      show "i + 1 < cnt" using True by simp
      show "NaN \<notin> set d1" by (rule nan1)
      show "sorted (take (i + 1) d1)" by (rule s1)
      show "\<forall>a\<in>set (take (i + 1) d1). \<forall>b\<in>set (drop (i + 1) d1). a \<le> b" by (rule b1)
    qed
    then obtain d where d: "median_outer cnt (i + 1) d1 = Returns d" "mset d = mset d1" "sorted d"
      by blast
    have "median_outer cnt i data = median_outer cnt (i + 1) d1"
      using True up d1(1) by (subst median_outer.simps) simp
    with d d1(3) show ?thesis by simp
  qed
qed

lemma median_outer_sort:
  assumes "0 < length data" and "NaN \<notin> set data"
  shows "median_outer (length data) 0 data = Returns (sort data)"
proof -
  from assms have "\<exists>d. median_outer (length data) 0 data = Returns d \<and>
      mset d = mset data \<and> sorted d"
    by (intro median_outer_spec) simp_all
  then obtain d where d: "median_outer (length data) 0 data = Returns d"
    "mset d = mset data" "sorted d"
    by blast
  from d(2,3) have "sort data = d"
    by (rule properties_for_sort)
  with d(1) show ?thesis by simp
qed

lemma calculate_median_eq:
  assumes "0 < length x" and "NaN \<notin> set x"
  shows "calculate_median x (length x) =
     Returns (sort x,
       if length x mod 2 \<noteq> 0 then sort x ! (length x div 2)
       else float_mean_of_two (sort x ! (length x div 2 - 1)) (sort x ! (length x div 2)))"
proof -
  have half: "(length x - Suc 0) div 2 = length x div 2 - Suc 0" if "length x mod 2 = 0"
    using that assms by presburger
  show ?thesis
    using assms
    by (simp add: calculate_median_def median_outer_sort uint32_pred_pos half)
qed

lemma calculate_median_total:
  assumes "0 < length x"
  shows "\<exists>d v. calculate_median x (length x) = Returns (d, v) \<and> length d = length x"
proof -
  from median_outer_total [of "length x" x 0] assms obtain d where
    d: "median_outer (length x) 0 x = Returns d" "length d = length x"
    by auto
  from assms have "length x div 2 < length x" by simp
  moreover from assms have "(length x - 1) div 2 < length x" by arith
  then have "uint32_pred (length x) div 2 < length x"
    using assms by (simp add: uint32_pred_pos)
  moreover note d
  ultimately show ?thesis
    by (simp add: calculate_median_def)
qed

lemma median_outer_zero: "cnt = 0 \<Longrightarrow> median_outer cnt i data = Returns data"
proof (induction cnt i data rule: median_outer.induct)
  case (1 cnt i data)
  have inner: "median_inner cnt i (i + 1) data = Returns data"
    using "1.prems" by (subst median_inner.simps) simp
  show ?case
  proof (cases "i < uint32_pred cnt")
    case True
    from "1.IH" [OF True inner "1.prems"] True inner show ?thesis
      by (subst median_outer.simps) simp
  next
    case False
    then show ?thesis
      by (subst median_outer.simps) simp
  qed
qed

subsection \<open>Rounding at a known exponent, and the order of the values\<close>



lemma Finite_le [simp]: "Finite a \<le> Finite b \<longleftrightarrow> a \<le> b"
  by (simp add: less_eq_cfloat_def)

lemma Finite_less [simp]: "Finite a < Finite b \<longleftrightarrow> a < b"
  by (auto simp add: less_cfloat_def)

lemma cfloat_order_simps [simp]:
  "\<not> PInf \<le> Finite a" "Finite a \<le> PInf" "NInf \<le> Finite a" "\<not> Finite a \<le> NInf"
  "NInf \<le> PInf" "\<not> PInf \<le> NInf" "x \<le> NaN"
  by (cases x; simp add: less_eq_cfloat_def)+

lemma finite_binary32E:
  assumes "finite_binary32 v"
  obtains r where "v = Finite r" and "representable 24 149 r" and "\<bar>r\<bar> < 2 ^ 128"
  using assms by (cases v) simp_all

lemma float_mean_of_two_between:
  assumes "representable 24 149 a" and "\<bar>a\<bar> < 2 ^ 128"
    and "representable 24 149 b" and "\<bar>b\<bar> < 2 ^ 128"
    and "a \<le> b" and "finite_float (float_add (Finite a) (Finite b))"
  shows "\<exists>r. float_mean_of_two (Finite a) (Finite b) = Finite r \<and> a \<le> r \<and> r \<le> b"
proof -
  define s where "s = round_to 24 149 (a + b)"
  from assms(6) have fin: "- (2 ^ 128) < s \<and> s < 2 ^ 128" and
    add: "to_binary32 (a + b) = Finite s"
    by (auto simp add: to_binary32_def to_format_def Let_def s_def split: if_splits)
  have "round_to 24 149 (2 * a) \<le> s" "s \<le> round_to 24 149 (2 * b)"
    unfolding s_def using assms(5) by (intro round_to_mono; simp)+
  moreover have "representable 24 149 (2 * a)" "representable 24 149 (2 * b)"
    using assms(1,3) by (simp_all add: representable_double)
  ultimately have s2: "2 * a \<le> s" "s \<le> 2 * b"
    by (simp_all add: round_to_id)
  have rs: "representable 24 149 s"
    unfolding s_def by (rule round_to_representable) simp
  have "representable 53 1074 (s / 2)"
    using rs by (intro representable_wider_half [of 24 149]) simp_all
  moreover have "\<bar>s / 2\<bar> < 2 ^ 1024"
  proof -
    from fin have "\<bar>s / 2\<bar> < 2 ^ 128" by (simp add: abs_if)
    also have "(2::real) ^ 128 \<le> 2 ^ 1024" by (intro power_increasing) simp_all
    finally show ?thesis .
  qed
  ultimately have half: "to_binary64 (s / 2) = Finite (s / 2)"
    by (simp add: to_binary64_id)
  from s2 have "a \<le> s / 2" "s / 2 \<le> b" by simp_all
  moreover from assms(2,4) have "- (2 ^ 128) < a" "b < 2 ^ 128" by linarith+
  ultimately have "\<exists>r. to_format 24 149 128 (s / 2) = Finite r \<and> a \<le> r \<and> r \<le> b \<and>
      representable 24 149 r"
    using assms(1,3) by (intro to_format_between) simp_all
  moreover have "float_mean_of_two (Finite a) (Finite b) = to_format 24 149 128 (s / 2)"
    by (simp add: float_mean_of_two_def add half) (simp add: to_binary32_def)
  ultimately show ?thesis
    by auto
qed


lemmas median_eval = calculate_median_def median_outer.simps median_inner.simps uint32_pred_def
  c_greater_def

lemma finite_binary32_of_int:
  assumes "\<bar>m\<bar> < 16777216"
  shows "finite_binary32 (Finite (of_int m))"
proof -
  from assms have "\<bar>m\<bar> < 2 ^ 24" by simp
  then have "representable 24 149 (real_of_int m)"
    by (intro representable_of_int) simp_all
  moreover from assms have "\<bar>real_of_int m\<bar> < 16777216"
    by (metis abs_le_iff abs_less_iff of_int_abs of_int_less_numeral_iff)
  then have "\<bar>real_of_int m\<bar> < 2 ^ 128" by simp
  ultimately show ?thesis by simp
qed

lemma finite_binary32_numeral:
  "numeral k < (16777216::int) \<Longrightarrow> finite_binary32 (Finite (numeral k))"
  using finite_binary32_of_int [of "numeral k"] by simp

lemma finite_binary32_1: "finite_binary32 (Finite 1)"
  using finite_binary32_of_int [of 1] by simp

subsection \<open>The standard deviation when no step rounds\<close>







subsection \<open>Evaluations\<close>


















subsection \<open>The calls return\<close>

lemma calculate_std_dev_total:
  assumes "cnt \<le> length data"
  shows "\<exists>v. calculate_std_dev data cnt = Returns v"
proof -
  from sum_loop_total [OF assms] obtain s where
    s: "sum_loop data cnt 0 (Finite 0) = Returns s"
    by blast
  from dev_loop_total [OF assms] obtain d where
    d: "dev_loop data cnt (float_div s (float_of_uint32 cnt)) 0 (Finite 0) = Returns d"
    by blast
  show ?thesis
    by (simp add: calculate_std_dev_def s d)
qed

lemma calculate_max_total:
  assumes "0 < length data"
  shows "\<exists>v. calculate_max data (length data) = Returns v"
  using assms max_loop_total [of "length data" data] by (simp add: calculate_max_def)

lemma calculate_min_total:
  assumes "0 < length data"
  shows "\<exists>v. calculate_min data (length data) = Returns v"
  using assms min_loop_total [of "length data" data] by (simp add: calculate_min_def)

subsection \<open>The claims about the statistics\<close>







text \<open>
  C4, as claimed: with \<open>count = 0\<close> every statistics function fails with an
  \<open>InvalidInput\<close> error and never returns a value silently. The functions have no
  error result: on a one-element array and \<open>count = 0\<close>, \<open>calculate_max\<close> and
  \<open>calculate_min\<close> return \<open>data[0]\<close> and \<open>calculate_std_dev\<close> returns NaN.
\<close>

theorem empty_input_counterexample:
  "calculate_std_dev [Finite 7] 0 = Returns NaN \<and>
   calculate_max [Finite 7] 0 = Returns (Finite 7) \<and>
   calculate_min [Finite 7] 0 = Returns (Finite 7) \<and> calculate_max [] 0 = Out_Of_Bounds"
  by (simp add: calculate_std_dev_def calculate_max_def calculate_min_def
      sum_loop.simps dev_loop.simps max_loop.simps min_loop.simps float_of_uint32_def)

text \<open>
  C4, amended: the statistics functions make no emptiness check. With \<open>count = 0\<close>,
  \<open>calculate_std_dev\<close> returns NaN, \<open>calculate_max\<close> and \<open>calculate_min\<close> return
  \<open>data[0]\<close> (a read outside the array when it has no element), and
  \<open>calculate_median\<close> leaves the array as it is and reads \<open>data[2147483647]\<close> and
  \<open>data[0]\<close>, since \<open>count - 1\<close> wraps.
\<close>

theorem empty_input_unchecked:
  "calculate_std_dev data 0 = Returns NaN \<and>
   calculate_max data 0 = (if data = [] then Out_Of_Bounds else Returns (data ! 0)) \<and>
   calculate_min data 0 = (if data = [] then Out_Of_Bounds else Returns (data ! 0)) \<and>
   calculate_median data 0 =
     (if 2147483647 < length data
      then Returns (data, float_mean_of_two (data ! 2147483647) (data ! 0))
      else Out_Of_Bounds)"
proof -
  have "calculate_std_dev data 0 = Returns NaN"
    by (simp add: calculate_std_dev_def sum_loop.simps dev_loop.simps float_of_uint32_def)
  moreover have "calculate_max data 0 = (if data = [] then Out_Of_Bounds else Returns (data ! 0))"
    by (simp add: calculate_max_def max_loop.simps)
  moreover have "calculate_min data 0 = (if data = [] then Out_Of_Bounds else Returns (data ! 0))"
    by (simp add: calculate_min_def min_loop.simps)
  moreover have "calculate_median data 0 =
     (if 2147483647 < length data
      then Returns (data, float_mean_of_two (data ! 2147483647) (data ! 0))
      else Out_Of_Bounds)"
    by (auto simp add: calculate_median_def median_outer_zero uint32_pred_def)
  ultimately show ?thesis by simp
qed




text \<open>
  C8, as claimed: for every non-empty sequence \<open>x\<close>,
  \<open>calculate_min(x) \<le> calculate_median(x) \<le> calculate_max(x)\<close>. On
  \<open>{FLT_MAX, FLT_MAX}\<close> the \<open>float\<close> sum of the two central elements overflows: the
  median returned is \<open>+inf\<close>, above the maximum \<open>FLT_MAX\<close>.
\<close>

theorem min_le_median_le_max_counterexample:
  "finite_binary32 (Finite FLT_MAX) \<and>
   calculate_median [Finite FLT_MAX, Finite FLT_MAX] 2 =
     Returns ([Finite FLT_MAX, Finite FLT_MAX], PInf) \<and>
   calculate_max [Finite FLT_MAX, Finite FLT_MAX] 2 = Returns (Finite FLT_MAX) \<and>
   \<not> PInf \<le> Finite FLT_MAX"
proof -
  have r1: "representable 24 149 FLT_MAX"
    by (rule representableI [of 24 16777215 _ _ 253]) (simp_all add: FLT_MAX_def)
  have r2: "representable 24 149 (FLT_MAX + FLT_MAX)"
    by (rule representableI [of 24 16777215 _ _ 254]) (simp_all add: FLT_MAX_def)
  have "to_binary32 (FLT_MAX + FLT_MAX) = PInf"
    by (simp only: to_binary32_def to_format_def Let_def round_to_id [OF r2])
      (simp add: FLT_MAX_def)
  then have "float_mean_of_two (Finite FLT_MAX) (Finite FLT_MAX) = PInf"
    by (simp add: float_mean_of_two_def)
  moreover have "calculate_max [Finite FLT_MAX, Finite FLT_MAX] 2 = Returns (Finite FLT_MAX)"
    by (simp add: calculate_max_def max_loop.simps c_greater_def)
  moreover have "finite_binary32 (Finite FLT_MAX)"
    using r1 by (simp add: FLT_MAX_def)
  ultimately show ?thesis
    by (simp add: median_eval)
qed

text \<open>
  C8, amended: for every non-empty sequence \<open>x\<close> of finite \<open>float\<close> values, if its
  length is odd or the \<open>float\<close> sum of the two central elements of the sorted sequence
  is finite, then \<open>calculate_min\<close>, \<open>calculate_median\<close> and \<open>calculate_max\<close> return
  values \<open>lo\<close>, \<open>md\<close> and \<open>hi\<close> with \<open>lo \<le> md \<le> hi\<close>.
\<close>

theorem min_le_median_le_max:
  assumes "0 < length x" and "\<forall>v\<in>set x. finite_binary32 v"
    and "length x mod 2 = 0 \<longrightarrow>
      finite_float (float_add (sort x ! (length x div 2 - 1)) (sort x ! (length x div 2)))"
  shows "\<exists>lo md hi d.
     calculate_min x (length x) = Returns lo \<and>
     calculate_median x (length x) = Returns (d, md) \<and>
     calculate_max x (length x) = Returns hi \<and> lo \<le> md \<and> md \<le> hi"
proof -
  let ?n = "length x"
  from assms(2) have nan: "NaN \<notin> set x" by auto
  have el: "sort x ! k \<in> set x" if "k < ?n" for k
  proof -
    from that have "sort x ! k \<in> set (sort x)"
      by (intro nth_mem) simp
    then show ?thesis by simp
  qed
  have bnd: "Min (set x) \<le> v \<and> v \<le> Max (set x)" if "v \<in> set x" for v
    using that by simp
  define md where "md = (if ?n mod 2 \<noteq> 0 then sort x ! (?n div 2)
       else float_mean_of_two (sort x ! (?n div 2 - 1)) (sort x ! (?n div 2)))"
  from assms(1) have k1: "?n div 2 < ?n" and k2: "?n div 2 - 1 < ?n"
    by linarith+
  have "Min (set x) \<le> md \<and> md \<le> Max (set x)"
  proof (cases "?n mod 2 \<noteq> 0")
    case True
    with bnd [OF el [OF k1]] show ?thesis by (simp add: md_def)
  next
    case False
    then have ev: "?n mod 2 = 0" by simp
    then have pos: "0 < ?n div 2" using assms(1) by presburger
    from assms(2) el [OF k2] obtain a where a: "sort x ! (?n div 2 - 1) = Finite a"
      "representable 24 149 a" "\<bar>a\<bar> < 2 ^ 128"
      by (metis finite_binary32E)
    from assms(2) el [OF k1] obtain b where b: "sort x ! (?n div 2) = Finite b"
      "representable 24 149 b" "\<bar>b\<bar> < 2 ^ 128"
      by (metis finite_binary32E)
    have "sort x ! (?n div 2 - 1) \<le> sort x ! (?n div 2)"
      using k1 by (intro sorted_nth_mono) simp_all
    then have "Finite a \<le> Finite b" by (simp only: a b)
    then have ab: "a \<le> b" by simp
    from assms(3) ev
    have "finite_float (float_add (sort x ! (?n div 2 - 1)) (sort x ! (?n div 2)))"
      by (rule mp)
    then have "finite_float (float_add (Finite a) (Finite b))"
      by (simp only: a b)
    from float_mean_of_two_between [OF a(2,3) b(2,3) ab this] obtain r where
      r: "float_mean_of_two (Finite a) (Finite b) = Finite r" "a \<le> r" "r \<le> b"
      by blast
    have "Min (set x) \<le> Finite a" "Finite b \<le> Max (set x)"
      using bnd [OF el [OF k2]] bnd [OF el [OF k1]] unfolding a b by simp_all
    moreover have "Finite a \<le> Finite r" "Finite r \<le> Finite b"
      using r by simp_all
    ultimately have "Min (set x) \<le> Finite r \<and> Finite r \<le> Max (set x)"
      by (meson order_trans)
    moreover from False have "md = float_mean_of_two (Finite a) (Finite b)"
      by (simp only: md_def a b if_False)
    ultimately show ?thesis
      by (simp only: r(1))
  qed
  moreover have "calculate_median x ?n = Returns (sort x, md)"
    using assms(1) nan by (simp add: calculate_median_eq md_def)
  ultimately show ?thesis
    using assms(1) nan by (simp add: calculate_min_eq calculate_max_eq)
qed

theorem min_le_median_le_max_witness:
  "finite_binary32 (Finite 6) \<and> finite_binary32 (Finite 1) \<and> finite_binary32 (Finite 4) \<and>
   finite_binary32 (Finite 2) \<and>
   finite_float (float_add (Finite 2) (Finite 4)) \<and>
   calculate_min [Finite 6, Finite 1, Finite 4, Finite 2] 4 = Returns (Finite 1) \<and>
   calculate_median [Finite 6, Finite 1, Finite 4, Finite 2] 4 =
     Returns ([Finite 1, Finite 2, Finite 4, Finite 6], Finite 3) \<and>
   calculate_max [Finite 6, Finite 1, Finite 4, Finite 2] 4 = Returns (Finite 6) \<and>
   Finite 1 \<le> Finite 3 \<and> Finite 3 \<le> Finite 6"
proof -
  let ?x = "[Finite 6, Finite 1, Finite 4, Finite 2]"
  have f: "finite_binary32 (Finite 6)" "finite_binary32 (Finite 4)" "finite_binary32 (Finite 2)"
    by (rule finite_binary32_numeral, simp)+
  note f1 = finite_binary32_1
  have a: "float_add (Finite 2) (Finite 4) = Finite 6"
    by (simp add: to_binary32_numeral)
  have p: "0 < length ?x" by simp
  have l: "length ?x = 4" by simp
  have s: "sort ?x = [Finite 1, Finite 2, Finite 4, Finite 6]" by simp
  have fin: "\<forall>v\<in>set ?x. finite_binary32 v"
    using f f1 by simp
  have ev: "length ?x mod 2 = 0 \<longrightarrow>
      finite_float (float_add (sort ?x ! (length ?x div 2 - 1)) (sort ?x ! (length ?x div 2)))"
    unfolding l s by (simp add: to_binary32_numeral)
  from min_le_median_le_max [OF p fin ev, unfolded l] obtain lo md hi d where
    r: "calculate_min ?x 4 = Returns lo" "calculate_median ?x 4 = Returns (d, md)"
      "calculate_max ?x 4 = Returns hi" "lo \<le> md" "md \<le> hi"
    by blast
  have m: "float_mean_of_two (Finite 2) (Finite 4) = Finite 3"
    by (simp add: float_mean_of_two_def to_binary64_numeral to_binary32_numeral)
  have "calculate_min ?x 4 = Returns (Finite 1)"
    by (simp add: calculate_min_def min_loop.simps c_less_def)
  moreover have "calculate_max ?x 4 = Returns (Finite 6)"
    by (simp add: calculate_max_def max_loop.simps c_greater_def)
  moreover have "calculate_median ?x 4 = Returns ([Finite 1, Finite 2, Finite 4, Finite 6], Finite 3)"
    by (simp add: median_eval m)
  ultimately show ?thesis
    using r f f1 a by simp
qed

section \<open>Properties of the consumer cycle\<close>

lemma take_update_drop:
  assumes "i < length p" and "i < length buf"
  shows "take (Suc i) (p[i := f (buf ! i)]) @ map f (drop (Suc i) buf) =
     take i p @ map f (drop i buf)"
proof -
  have "drop i buf = buf ! i # drop (Suc i) buf"
    using assms(2) by (simp add: Cons_nth_drop_Suc)
  then show ?thesis
    using assms(1) by (simp add: take_Suc_conv_app_nth)
qed

lemma copy_loop_eq:
  "i \<le> BUFFER_SIZE \<Longrightarrow> length buf = BUFFER_SIZE \<Longrightarrow> locals_ok l \<Longrightarrow>
   copy_loop buf i l =
     Some \<lparr>pir_data = take i (pir_data l) @ map PIR (drop i buf),
           humidity_and_heat_data =
             take i (humidity_and_heat_data l) @ map humidity_and_heat (drop i buf),
           ldr_data = take i (ldr_data l) @ map LDR (drop i buf)\<rparr>"
proof (induction buf i l rule: copy_loop.induct)
  case (1 buf i l)
  show ?case
  proof (cases "i < BUFFER_SIZE")
    case False
    with "1.prems" have "i = BUFFER_SIZE" by simp
    with "1.prems" show ?thesis
      by (subst copy_loop.simps) (simp add: locals_ok_def)
  next
    case True
    let ?l' = "l\<lparr>pir_data := (pir_data l)[i := PIR (buf ! i)],
                humidity_and_heat_data :=
                  (humidity_and_heat_data l)[i := humidity_and_heat (buf ! i)],
                ldr_data := (ldr_data l)[i := LDR (buf ! i)]\<rparr>"
    from True "1.prems" have bounds: "i < length buf \<and> i < length (pir_data l) \<and>
        i < length (humidity_and_heat_data l) \<and> i < length (ldr_data l)"
      by (simp add: locals_ok_def)
    have ok': "locals_ok ?l'"
      using "1.prems"(3) by (simp add: locals_ok_def)
    have "copy_loop buf i l = copy_loop buf (i + 1) ?l'"
      using True bounds by (subst copy_loop.simps) simp
    also have "\<dots> =
      Some \<lparr>pir_data = take (i + 1) (pir_data ?l') @ map PIR (drop (i + 1) buf),
           humidity_and_heat_data =
             take (i + 1) (humidity_and_heat_data ?l') @ map humidity_and_heat (drop (i + 1) buf),
           ldr_data = take (i + 1) (ldr_data ?l') @ map LDR (drop (i + 1) buf)\<rparr>"
      using True bounds "1.prems"(2) ok' by (intro "1.IH") simp_all
    also have "\<dots> =
      Some \<lparr>pir_data = take i (pir_data l) @ map PIR (drop i buf),
           humidity_and_heat_data =
             take i (humidity_and_heat_data l) @ map humidity_and_heat (drop i buf),
           ldr_data = take i (ldr_data l) @ map LDR (drop i buf)\<rparr>"
      using bounds by (simp add: take_update_drop)
    finally show ?thesis .
  qed
qed

lemma consumer_copy_out_eq:
  assumes "length (sensor_buffer g) = BUFFER_SIZE" and "locals_ok l"
  shows "consumer_copy_out g l =
     Some \<lparr>pir_data = map PIR (sensor_buffer g),
           humidity_and_heat_data = map humidity_and_heat (sensor_buffer g),
           ldr_data = map LDR (sensor_buffer g)\<rparr>"
  using assms by (simp add: consumer_copy_out_def copy_loop_eq)

lemma BUFFER_SIZE_pos: "0 < BUFFER_SIZE"
  by (simp add: BUFFER_SIZE_def)

lemma statistics_defined:
  assumes "length x = BUFFER_SIZE"
  shows "\<exists>sd mx mn md d. calculate_std_dev x BUFFER_SIZE = Returns sd \<and>
     calculate_max x BUFFER_SIZE = Returns mx \<and> calculate_min x BUFFER_SIZE = Returns mn \<and>
     calculate_median x BUFFER_SIZE = Returns (d, md)"
proof -
  from assms BUFFER_SIZE_pos have pos: "0 < length x" by simp
  from calculate_std_dev_total [of "length x" x] calculate_max_total [OF pos]
    calculate_min_total [OF pos] calculate_median_total [OF pos]
  show ?thesis
    unfolding assms by blast
qed

lemma consumer_statistics_defined:
  assumes "locals_ok l"
  shows "\<exists>l' fd. consumer_statistics l = Returns (l', fd) \<and>
     calculate_std_dev (pir_data l) BUFFER_SIZE = Returns (pir_std_dev fd) \<and>
     calculate_max (pir_data l) BUFFER_SIZE = Returns (pir_max fd) \<and>
     calculate_min (pir_data l) BUFFER_SIZE = Returns (pir_min fd) \<and>
     calculate_median (pir_data l) BUFFER_SIZE = Returns (pir_data l', pir_median fd) \<and>
     calculate_std_dev (humidity_and_heat_data l) BUFFER_SIZE =
       Returns (humidity_and_heat_std_dev fd) \<and>
     calculate_max (humidity_and_heat_data l) BUFFER_SIZE = Returns (humidity_and_heat_max fd) \<and>
     calculate_min (humidity_and_heat_data l) BUFFER_SIZE = Returns (humidity_and_heat_min fd) \<and>
     calculate_median (humidity_and_heat_data l) BUFFER_SIZE =
       Returns (humidity_and_heat_data l', humidity_and_heat_median fd) \<and>
     calculate_std_dev (ldr_data l) BUFFER_SIZE = Returns (ldr_std_dev fd) \<and>
     calculate_max (ldr_data l) BUFFER_SIZE = Returns (ldr_max fd) \<and>
     calculate_min (ldr_data l) BUFFER_SIZE = Returns (ldr_min fd) \<and>
     calculate_median (ldr_data l) BUFFER_SIZE = Returns (ldr_data l', ldr_median fd) \<and>
     locals_ok l'"
proof -
  from assms have len: "length (pir_data l) = BUFFER_SIZE"
    "length (humidity_and_heat_data l) = BUFFER_SIZE" "length (ldr_data l) = BUFFER_SIZE"
    by (simp_all add: locals_ok_def)
  from statistics_defined [OF len(1)] obtain sd1 mx1 mn1 md1 d1 where
    p: "calculate_std_dev (pir_data l) BUFFER_SIZE = Returns sd1"
      "calculate_max (pir_data l) BUFFER_SIZE = Returns mx1"
      "calculate_min (pir_data l) BUFFER_SIZE = Returns mn1"
      "calculate_median (pir_data l) BUFFER_SIZE = Returns (d1, md1)"
    by blast
  from statistics_defined [OF len(2)] obtain sd2 mx2 mn2 md2 d2 where
    h: "calculate_std_dev (humidity_and_heat_data l) BUFFER_SIZE = Returns sd2"
      "calculate_max (humidity_and_heat_data l) BUFFER_SIZE = Returns mx2"
      "calculate_min (humidity_and_heat_data l) BUFFER_SIZE = Returns mn2"
      "calculate_median (humidity_and_heat_data l) BUFFER_SIZE = Returns (d2, md2)"
    by blast
  from statistics_defined [OF len(3)] obtain sd3 mx3 mn3 md3 d3 where
    r: "calculate_std_dev (ldr_data l) BUFFER_SIZE = Returns sd3"
      "calculate_max (ldr_data l) BUFFER_SIZE = Returns mx3"
      "calculate_min (ldr_data l) BUFFER_SIZE = Returns mn3"
      "calculate_median (ldr_data l) BUFFER_SIZE = Returns (d3, md3)"
    by blast
  have dl: "length d1 = BUFFER_SIZE" "length d2 = BUFFER_SIZE" "length d3 = BUFFER_SIZE"
    using p(4) h(4) r(4) len BUFFER_SIZE_pos
      calculate_median_total [of "pir_data l"]
      calculate_median_total [of "humidity_and_heat_data l"]
      calculate_median_total [of "ldr_data l"]
    by auto
  have "consumer_statistics l =
      Returns
         (\<lparr>pir_data = d1, humidity_and_heat_data = d2, ldr_data = d3\<rparr>,
          \<lparr>pir_std_dev = sd1, pir_max = mx1, pir_min = mn1, pir_median = md1,
           humidity_and_heat_std_dev = sd2, humidity_and_heat_max = mx2,
           humidity_and_heat_min = mn2, humidity_and_heat_median = md2,
           ldr_std_dev = sd3, ldr_max = mx3, ldr_min = mn3, ldr_median = md3\<rparr>)"
    by (simp add: consumer_statistics_def then_result_def p h r)
  with p h r dl show ?thesis
    by (simp add: locals_ok_def)
qed

text \<open>
  C7. The copy-out of a consumer cycle reads all \<open>N = 100\<close> slots of
  \<open>sensor_buffer\<close>, whatever \<open>buffer_head\<close> and \<open>buffer_tail\<close> are and whether or not a
  slot was ever written: the three sequences it produces are the \<open>PIR\<close>,
  \<open>humidity_and_heat\<close> and \<open>LDR\<close> fields of the whole array, each of length \<open>N\<close>, and
  each of the twelve fields of the summary is the statistic of one of these sequences
  with \<open>count = N\<close>.
\<close>

theorem consumer_reads_whole_array:
  assumes "length (sensor_buffer g) = BUFFER_SIZE" and "locals_ok l"
  shows "consumer_copy_out (g\<lparr>buffer_head := h, buffer_tail := t\<rparr>) l =
       Some \<lparr>pir_data = map PIR (sensor_buffer g),
             humidity_and_heat_data = map humidity_and_heat (sensor_buffer g),
             ldr_data = map LDR (sensor_buffer g)\<rparr> \<and>
     length (map PIR (sensor_buffer g)) = 100 \<and>
     length (map humidity_and_heat (sensor_buffer g)) = 100 \<and>
     length (map LDR (sensor_buffer g)) = 100 \<and>
     (\<exists>l' fd. consumer_cycle (g\<lparr>buffer_head := h, buffer_tail := t\<rparr>) l = Returns (l', fd) \<and>
       calculate_std_dev (map PIR (sensor_buffer g)) 100 = Returns (pir_std_dev fd) \<and>
       calculate_max (map PIR (sensor_buffer g)) 100 = Returns (pir_max fd) \<and>
       calculate_min (map PIR (sensor_buffer g)) 100 = Returns (pir_min fd) \<and>
       calculate_median (map PIR (sensor_buffer g)) 100 = Returns (pir_data l', pir_median fd) \<and>
       calculate_std_dev (map humidity_and_heat (sensor_buffer g)) 100 =
         Returns (humidity_and_heat_std_dev fd) \<and>
       calculate_max (map humidity_and_heat (sensor_buffer g)) 100 =
         Returns (humidity_and_heat_max fd) \<and>
       calculate_min (map humidity_and_heat (sensor_buffer g)) 100 =
         Returns (humidity_and_heat_min fd) \<and>
       calculate_median (map humidity_and_heat (sensor_buffer g)) 100 =
         Returns (humidity_and_heat_data l', humidity_and_heat_median fd) \<and>
       calculate_std_dev (map LDR (sensor_buffer g)) 100 = Returns (ldr_std_dev fd) \<and>
       calculate_max (map LDR (sensor_buffer g)) 100 = Returns (ldr_max fd) \<and>
       calculate_min (map LDR (sensor_buffer g)) 100 = Returns (ldr_min fd) \<and>
       calculate_median (map LDR (sensor_buffer g)) 100 = Returns (ldr_data l', ldr_median fd))"
proof -
  let ?g = "g\<lparr>buffer_head := h, buffer_tail := t\<rparr>"
  let ?c = "\<lparr>pir_data = map PIR (sensor_buffer g),
             humidity_and_heat_data = map humidity_and_heat (sensor_buffer g),
             ldr_data = map LDR (sensor_buffer g)\<rparr>"
  have n: "BUFFER_SIZE = 100" by (rule BUFFER_SIZE_def)
  from assms(1) have "length (sensor_buffer ?g) = BUFFER_SIZE" by simp
  from consumer_copy_out_eq [OF this assms(2)] have copy: "consumer_copy_out ?g l = Some ?c"
    by simp
  have okc: "locals_ok ?c"
    using assms(1) by (simp add: locals_ok_def)
  from consumer_statistics_defined [OF okc] obtain l' fd where
    st: "consumer_statistics ?c = Returns (l', fd)" and
    vals: "calculate_std_dev (pir_data ?c) BUFFER_SIZE = Returns (pir_std_dev fd)"
      "calculate_max (pir_data ?c) BUFFER_SIZE = Returns (pir_max fd)"
      "calculate_min (pir_data ?c) BUFFER_SIZE = Returns (pir_min fd)"
      "calculate_median (pir_data ?c) BUFFER_SIZE = Returns (pir_data l', pir_median fd)"
      "calculate_std_dev (humidity_and_heat_data ?c) BUFFER_SIZE =
         Returns (humidity_and_heat_std_dev fd)"
      "calculate_max (humidity_and_heat_data ?c) BUFFER_SIZE = Returns (humidity_and_heat_max fd)"
      "calculate_min (humidity_and_heat_data ?c) BUFFER_SIZE = Returns (humidity_and_heat_min fd)"
      "calculate_median (humidity_and_heat_data ?c) BUFFER_SIZE =
         Returns (humidity_and_heat_data l', humidity_and_heat_median fd)"
      "calculate_std_dev (ldr_data ?c) BUFFER_SIZE = Returns (ldr_std_dev fd)"
      "calculate_max (ldr_data ?c) BUFFER_SIZE = Returns (ldr_max fd)"
      "calculate_min (ldr_data ?c) BUFFER_SIZE = Returns (ldr_min fd)"
      "calculate_median (ldr_data ?c) BUFFER_SIZE = Returns (ldr_data l', ldr_median fd)"
    by blast
  have cyc: "consumer_cycle ?g l = Returns (l', fd)"
    using copy st by (simp add: consumer_cycle_def)
  have lens: "length (map PIR (sensor_buffer g)) = 100"
    "length (map humidity_and_heat (sensor_buffer g)) = 100"
    "length (map LDR (sensor_buffer g)) = 100"
    using assms(1) by (simp_all add: n)
  from vals [unfolded n] cyc have "\<exists>l' fd. consumer_cycle ?g l = Returns (l', fd) \<and>
       calculate_std_dev (map PIR (sensor_buffer g)) 100 = Returns (pir_std_dev fd) \<and>
       calculate_max (map PIR (sensor_buffer g)) 100 = Returns (pir_max fd) \<and>
       calculate_min (map PIR (sensor_buffer g)) 100 = Returns (pir_min fd) \<and>
       calculate_median (map PIR (sensor_buffer g)) 100 = Returns (pir_data l', pir_median fd) \<and>
       calculate_std_dev (map humidity_and_heat (sensor_buffer g)) 100 =
         Returns (humidity_and_heat_std_dev fd) \<and>
       calculate_max (map humidity_and_heat (sensor_buffer g)) 100 =
         Returns (humidity_and_heat_max fd) \<and>
       calculate_min (map humidity_and_heat (sensor_buffer g)) 100 =
         Returns (humidity_and_heat_min fd) \<and>
       calculate_median (map humidity_and_heat (sensor_buffer g)) 100 =
         Returns (humidity_and_heat_data l', humidity_and_heat_median fd) \<and>
       calculate_std_dev (map LDR (sensor_buffer g)) 100 = Returns (ldr_std_dev fd) \<and>
       calculate_max (map LDR (sensor_buffer g)) 100 = Returns (ldr_max fd) \<and>
       calculate_min (map LDR (sensor_buffer g)) 100 = Returns (ldr_min fd) \<and>
       calculate_median (map LDR (sensor_buffer g)) 100 = Returns (ldr_data l', ldr_median fd)"
    by (intro exI [of _ l'] exI [of _ fd]) simp
  with copy lens show ?thesis
    by (intro conjI)
qed

theorem consumer_reads_whole_array_witness:
  "length (sensor_buffer initial_globals) = BUFFER_SIZE \<and>
   locals_ok \<lparr>pir_data = replicate 100 (Finite 7), humidity_and_heat_data = replicate 100 (Finite 8),
              ldr_data = replicate 100 (Finite 9)\<rparr> \<and>
   consumer_copy_out
      (initial_globals
         \<lparr>sensor_buffer :=
            (sensor_buffer initial_globals)[0 := \<lparr>PIR = Finite 1, humidity_and_heat = Finite 2, LDR = Finite 3\<rparr>],
          buffer_head := 1\<rparr>)
      \<lparr>pir_data = replicate 100 (Finite 7), humidity_and_heat_data = replicate 100 (Finite 8),
        ldr_data = replicate 100 (Finite 9)\<rparr> =
     Some \<lparr>pir_data = (replicate 100 (Finite 0))[0 := Finite 1],
           humidity_and_heat_data = (replicate 100 (Finite 0))[0 := Finite 2],
           ldr_data = (replicate 100 (Finite 0))[0 := Finite 3]\<rparr>"
proof -
  let ?g = "initial_globals
         \<lparr>sensor_buffer :=
            (sensor_buffer initial_globals)[0 := \<lparr>PIR = Finite 1, humidity_and_heat = Finite 2, LDR = Finite 3\<rparr>]\<rparr>"
  let ?l = "\<lparr>pir_data = replicate 100 (Finite 7), humidity_and_heat_data = replicate 100 (Finite 8),
              ldr_data = replicate 100 (Finite 9)\<rparr>"
  have len0: "length (sensor_buffer initial_globals) = BUFFER_SIZE"
    by (simp add: initial_globals_def)
  have len: "length (sensor_buffer ?g) = BUFFER_SIZE"
    by (simp add: initial_globals_def)
  have ok: "locals_ok ?l"
    by (simp add: locals_ok_def BUFFER_SIZE_def)
  from consumer_reads_whole_array [OF len ok, where h = 1 and t = 0, THEN conjunct1]
  have "consumer_copy_out (?g\<lparr>buffer_head := 1, buffer_tail := 0\<rparr>) ?l =
     Some \<lparr>pir_data = (replicate 100 (Finite 0))[0 := Finite 1],
           humidity_and_heat_data = (replicate 100 (Finite 0))[0 := Finite 2],
           ldr_data = (replicate 100 (Finite 0))[0 := Finite 3]\<rparr>"
    by (simp add: initial_globals_def BUFFER_SIZE_def zero_reading_def map_update)
  with len0 ok show ?thesis
    by (simp add: initial_globals_def)
qed

section \<open>Properties of the handshake\<close>

lemma gfw_snoc_other:
  "e = Take Producer_Task Producer_Semaphore \<or> e = Give Producer_Task Consumer_Semaphore \<or>
   e = Take Consumer_Task Consumer_Semaphore \<Longrightarrow>
   gives_follow_wake w (es @ [e]) = gives_follow_wake w es"
  by (induction w es rule: gives_follow_wake.induct) auto

lemma gfw_mono: "gives_follow_wake w es \<Longrightarrow> gives_follow_wake True es"
  by (induction w es rule: gives_follow_wake.induct) auto

lemma gfw_snoc_give:
  "gives_follow_wake w es \<Longrightarrow> w \<or> Take Consumer_Task Consumer_Semaphore \<in> set es \<Longrightarrow>
   gives_follow_wake w (es @ [Give Consumer_Task Producer_Semaphore])"
  by (induction w es rule: gives_follow_wake.induct) auto

lemma producer_iteration_ok:
  assumes "buffer_ok g"
  shows "\<exists>g'. producer_iteration sensor_data g = Some g' \<and> buffer_ok g'"
proof (cases "(buffer_head g + 1) mod int BUFFER_SIZE = buffer_tail g")
  case True
  with buffer_push_cases [OF assms, of sensor_data] obtain g1 where
    "buffer_push sensor_data g = Some (False, g1)"
    by blast
  from producer_iteration_when_full [OF assms this, THEN conjunct2, THEN conjunct1]
  have "producer_iteration sensor_data g =
      Some (g\<lparr>sensor_buffer := (sensor_buffer g)[nat (buffer_tail g) := sensor_data],
              buffer_head := (buffer_tail g + 1) mod int BUFFER_SIZE\<rparr>)" .
  moreover have "buffer_ok (g\<lparr>sensor_buffer := (sensor_buffer g)[nat (buffer_tail g) := sensor_data],
              buffer_head := (buffer_tail g + 1) mod int BUFFER_SIZE\<rparr>)"
    using assms by (simp add: buffer_ok_def BUFFER_SIZE_def)
  ultimately show ?thesis by blast
next
  case False
  with buffer_push_cases [OF assms, of sensor_data] have
    "buffer_push sensor_data g =
       Some (True, g\<lparr>sensor_buffer := (sensor_buffer g)[nat (buffer_head g) := sensor_data],
                  buffer_head := (buffer_head g + 1) mod int BUFFER_SIZE\<rparr>)"
    by blast
  then have "producer_iteration sensor_data g =
       Some (g\<lparr>sensor_buffer := (sensor_buffer g)[nat (buffer_head g) := sensor_data],
                  buffer_head := (buffer_head g + 1) mod int BUFFER_SIZE\<rparr>)"
    by (simp add: producer_iteration_def)
  moreover have "buffer_ok (g\<lparr>sensor_buffer := (sensor_buffer g)[nat (buffer_head g) := sensor_data],
                  buffer_head := (buffer_head g + 1) mod int BUFFER_SIZE\<rparr>)"
    using assms by (simp add: buffer_ok_def BUFFER_SIZE_def)
  ultimately show ?thesis by blast
qed

lemma producer_step_ok:
  assumes "system_ok s"
  shows "\<exists>s'. producer_step sensor_data s = Some s' \<and> system_ok s'"
proof -
  from assms have "buffer_ok (shared s)" by (simp add: system_ok_def)
  from producer_iteration_ok [OF this, of sensor_data] obtain g' where
    g': "producer_iteration sensor_data (shared s) = Some g'" "buffer_ok g'"
    by blast
  show ?thesis
  proof (cases "producer_at s")
    case P_take
    with assms show ?thesis
      by (auto simp add: producer_step_def xSemaphoreTake_def system_ok_def gfw_snoc_other)
  next
    case P_lock
    with assms show ?thesis
      by (auto simp add: producer_step_def osMutexWait_def system_ok_def)
  next
    case (P_loop i)
    with assms g' show ?thesis
      by (auto simp add: producer_step_def system_ok_def)
  next
    case P_unlock
    with assms show ?thesis
      by (auto simp add: producer_step_def system_ok_def)
  next
    case P_give
    with assms show ?thesis
      by (auto simp add: producer_step_def system_ok_def gfw_snoc_other)
  qed
qed

lemma consumer_step_ok:
  assumes "system_ok s"
  shows "\<exists>s'. consumer_step s = Some s' \<and> system_ok s'"
proof -
  from assms have b: "buffer_ok (shared s)" and l: "locals_ok (consumer_arrays s)"
    by (simp_all add: system_ok_def)
  from b have len: "length (sensor_buffer (shared s)) = BUFFER_SIZE"
    by (simp add: buffer_ok_def)
  have copy: "\<exists>l'. consumer_copy_out (shared s) (consumer_arrays s) = Some l' \<and> locals_ok l'"
    using consumer_copy_out_eq [OF len l] len by (simp add: locals_ok_def)
  from consumer_statistics_defined [OF l] obtain l2 fd where
    st: "consumer_statistics (consumer_arrays s) = Returns (l2, fd)" "locals_ok l2"
    by blast
  show ?thesis
  proof (cases "consumer_at s")
    case C_take
    with assms show ?thesis
      by (auto simp add: consumer_step_def xSemaphoreTake_def system_ok_def gfw_snoc_other)
  next
    case C_lock
    with assms show ?thesis
      by (auto simp add: consumer_step_def osMutexWait_def system_ok_def)
  next
    case C_copy
    with assms copy show ?thesis
      by (auto simp add: consumer_step_def system_ok_def)
  next
    case C_unlock
    with assms show ?thesis
      by (auto simp add: consumer_step_def system_ok_def)
  next
    case C_give
    with assms show ?thesis
      by (auto simp add: consumer_step_def system_ok_def gfw_snoc_give)
  next
    case C_compute
    with assms st show ?thesis
      by (auto simp add: consumer_step_def system_ok_def)
  next
    case C_broadcast
    with assms show ?thesis
      by (auto simp add: consumer_step_def system_ok_def)
  qed
qed

lemma run_ok: "system_ok s \<Longrightarrow> \<exists>s'. run sched s = Some s' \<and> system_ok s'"
proof (induction sched arbitrary: s)
  case Nil
  then show ?case by simp
next
  case (Cons c cs)
  have "\<exists>s1. sched_step c s = Some s1 \<and> system_ok s1"
    using Cons.prems by (cases c) (simp_all add: producer_step_ok consumer_step_ok)
  then obtain s1 where s1: "sched_step c s = Some s1" "system_ok s1"
    by blast
  from Cons.IH [OF s1(2)] s1(1) show ?case
    by simp
qed

lemma initial_globals_ok: "buffer_ok initial_globals"
  by (simp add: buffer_ok_def initial_globals_def BUFFER_SIZE_def)

lemma system_start_ok: "locals_ok stack \<Longrightarrow> system_ok (system_start p0 c0 stack)"
  by (simp add: system_ok_def system_start_def initial_globals_ok)

lemma main_start_blocked:
  "sched_step c (main_start stack) = Some (main_start stack)"
  by (cases c)
    (simp_all add: main_start_def system_start_def producer_step_def consumer_step_def
      xSemaphoreTake_def xSemaphoreCreateBinary_def)

lemma run_main_start: "run sched (main_start stack) = Some (main_start stack)"
  by (induction sched) (simp_all add: main_start_blocked)

text \<open>
  C9. The producer semaphore is created unsignaled, and in every execution from
  initialisation (every schedule of the two tasks) no signal is ever sent on it before
  the producer's first wait completes: both tasks stay at their first
  \<open>xSemaphoreTake\<close> and the trace of takes and gives stays empty. The only give of
  \<open>producer_semaphore\<close> is the consumer's, after the consumer has itself been woken:
  whatever state the two semaphores start in, every give of \<open>producer_semaphore\<close> in a
  run is made by the consumer task after a completed take of \<open>consumer_semaphore\<close>.
\<close>

theorem no_signal_before_first_wait:
  assumes "locals_ok stack"
  shows "\<not> producer_semaphore (main_start stack) \<and>
     (\<forall>sched. \<exists>s. run sched (main_start stack) = Some s \<and>
        producer_at s = P_take \<and> consumer_at s = C_take \<and>
        \<not> producer_semaphore s \<and> trace s = []) \<and>
     (\<forall>sched producer_flag consumer_flag.
        \<exists>s. run sched (system_start producer_flag consumer_flag stack) = Some s \<and>
          gives_follow_wake False (trace s))"
proof (intro conjI allI)
  show "\<not> producer_semaphore (main_start stack)"
    by (simp add: main_start_def system_start_def xSemaphoreCreateBinary_def)
next
  fix sched
  have "run sched (main_start stack) = Some (main_start stack)"
    by (rule run_main_start)
  then show "\<exists>s. run sched (main_start stack) = Some s \<and>
        producer_at s = P_take \<and> consumer_at s = C_take \<and>
        \<not> producer_semaphore s \<and> trace s = []"
    by (simp add: main_start_def system_start_def xSemaphoreCreateBinary_def)
next
  fix sched producer_flag consumer_flag
  from assms have "system_ok (system_start producer_flag consumer_flag stack)"
    by (rule system_start_ok)
  from run_ok [OF this, of sched]
  show "\<exists>s. run sched (system_start producer_flag consumer_flag stack) = Some s \<and>
          gives_follow_wake False (trace s)"
    by (auto simp add: system_ok_def)
qed

theorem no_signal_before_first_wait_witness:
  "locals_ok \<lparr>pir_data = replicate 100 (Finite 7), humidity_and_heat_data = replicate 100 (Finite 8),
              ldr_data = replicate 100 (Finite 9)\<rparr> \<and>
   run [Run_Producer \<lparr>PIR = Finite 1, humidity_and_heat = Finite 2, LDR = Finite 3\<rparr>, Run_Consumer,
        Run_Producer \<lparr>PIR = Finite 4, humidity_and_heat = Finite 5, LDR = Finite 6\<rparr>]
     (main_start \<lparr>pir_data = replicate 100 (Finite 7), humidity_and_heat_data = replicate 100 (Finite 8),
                   ldr_data = replicate 100 (Finite 9)\<rparr>) =
     Some (main_start \<lparr>pir_data = replicate 100 (Finite 7), humidity_and_heat_data = replicate 100 (Finite 8),
                        ldr_data = replicate 100 (Finite 9)\<rparr>) \<and>
   trace (main_start \<lparr>pir_data = replicate 100 (Finite 7), humidity_and_heat_data = replicate 100 (Finite 8),
                        ldr_data = replicate 100 (Finite 9)\<rparr>) = [] \<and>
   trace (the (run [Run_Consumer, Run_Consumer, Run_Consumer, Run_Consumer, Run_Consumer]
     (system_start False True
        \<lparr>pir_data = replicate 100 (Finite 7), humidity_and_heat_data = replicate 100 (Finite 8),
          ldr_data = replicate 100 (Finite 9)\<rparr>))) =
     [Take Consumer_Task Consumer_Semaphore, Give Consumer_Task Producer_Semaphore] \<and>
   gives_follow_wake False
     [Take Consumer_Task Consumer_Semaphore, Give Consumer_Task Producer_Semaphore] \<and>
   \<not> gives_follow_wake False [Give Consumer_Task Producer_Semaphore]"
proof -
  let ?stack = "\<lparr>pir_data = replicate 100 (Finite 7), humidity_and_heat_data = replicate 100 (Finite 8),
              ldr_data = replicate 100 (Finite 9)\<rparr>"
  have ok: "locals_ok ?stack"
    by (simp add: locals_ok_def BUFFER_SIZE_def)
  have len: "length (sensor_buffer initial_globals) = BUFFER_SIZE"
    by (simp add: initial_globals_def)
  note copy = consumer_copy_out_eq [OF len ok]
  have tr: "trace (the (run [Run_Consumer, Run_Consumer, Run_Consumer, Run_Consumer, Run_Consumer]
     (system_start False True ?stack))) =
     [Take Consumer_Task Consumer_Semaphore, Give Consumer_Task Producer_Semaphore]"
    by (simp add: system_start_def consumer_step_def xSemaphoreTake_def xSemaphoreGive_def
        xSemaphoreCreateMutex_def osMutexWait_def osMutexRelease_def copy)
  from no_signal_before_first_wait [OF ok] have
    "\<exists>s. run [Run_Producer \<lparr>PIR = Finite 1, humidity_and_heat = Finite 2, LDR = Finite 3\<rparr>, Run_Consumer,
        Run_Producer \<lparr>PIR = Finite 4, humidity_and_heat = Finite 5, LDR = Finite 6\<rparr>] (main_start ?stack) = Some s \<and>
        producer_at s = P_take \<and> consumer_at s = C_take \<and>
        \<not> producer_semaphore s \<and> trace s = []"
    by blast
  moreover have "run [Run_Producer \<lparr>PIR = Finite 1, humidity_and_heat = Finite 2, LDR = Finite 3\<rparr>, Run_Consumer,
        Run_Producer \<lparr>PIR = Finite 4, humidity_and_heat = Finite 5, LDR = Finite 6\<rparr>] (main_start ?stack) =
      Some (main_start ?stack)"
    by (simp add: main_start_def system_start_def producer_step_def consumer_step_def
        xSemaphoreTake_def xSemaphoreCreateBinary_def)
  ultimately have "trace (main_start ?stack) = []"
    by auto
  with ok tr \<open>run _ (main_start ?stack) = Some (main_start ?stack)\<close> show ?thesis
    by simp
qed

end
